theory Spec2Isabelle
  imports Main "HOL-Library.Word"
begin

text \<open>
  A shallow embedding of cp.go (package \<^verbatim>\<open>clientproxy\<close>, the Caddy handler
  \<^verbatim>\<open>http.handlers.client_proxy\<close>): a client registers by a request that carries the
  secret, its connection is hijacked and becomes an HTTP/2 transport over which later
  requests are proxied, until the next registration replaces it.
\<close>

section \<open>Go values used by cp.go\<close>

type_synonym byte = "8 word"

text \<open>
  A Go \<^verbatim>\<open>error\<close> value. \<open>ErrClosed\<close> is \<^verbatim>\<open>net.ErrClosed\<close>; \<open>Err msg\<close> is any
  other leaf error (also \<^verbatim>\<open>fmt.Errorf\<close> without \<^verbatim>\<open>%w\<close>); \<open>Wrap msg e\<close> is an error
  that wraps \<open>e\<close>, as \<^verbatim>\<open>fmt.Errorf("msg: %w", e)\<close> builds it. The \<^verbatim>\<open>nil\<close> error is
  \<open>None :: go_error option\<close>.
\<close>

datatype go_error = ErrClosed | Err string | Wrap string go_error

text \<open>\<^verbatim>\<open>errors.Is(err, net.ErrClosed)\<close>: walks the chain of wrapped errors.\<close>

fun errors_Is_ErrClosed :: "go_error \<Rightarrow> bool" where
  "errors_Is_ErrClosed ErrClosed = True"
| "errors_Is_ErrClosed (Err msg) = False"
| "errors_Is_ErrClosed (Wrap msg e) = errors_Is_ErrClosed e"

text \<open>
  The fields of \<^verbatim>\<open>*http.Request\<close> that cp.go reads or writes. \<open>Header\<close> is the
  \<^verbatim>\<open>map[string][]string\<close> with canonical keys, \<open>URL_Scheme\<close> and \<open>URL_Host\<close> are
  \<^verbatim>\<open>r.URL.Scheme\<close> and \<^verbatim>\<open>r.URL.Host\<close>, \<open>Host\<close> is \<^verbatim>\<open>r.Host\<close> (the inbound
  authority).
\<close>

record Request =
  Header :: "(string \<times> string list) list"
  URL_Scheme :: string
  URL_Host :: string
  Host :: string

text \<open>
  \<^verbatim>\<open>Header.Get(key)\<close> for a key that is already in canonical form, as the literal
  \<^verbatim>\<open>"X-Client-Proxy"\<close> is: the first value stored under the key, and \<^verbatim>\<open>""\<close> when the
  key is absent or has no value.
\<close>

definition Header_Get :: "(string \<times> string list) list \<Rightarrow> string \<Rightarrow> string" where
  "Header_Get h key =
     (case map_of h key of
        None \<Rightarrow> ''''
      | Some [] \<Rightarrow> ''''
      | Some (v # vs) \<Rightarrow> v)"

section \<open>bufConn\<close>

text \<open>
  \<^verbatim>\<open>type bufConn struct { net.Conn; *bufio.Reader }\<close>. The embedded connection is kept
  abstract (\<open>'c\<close> is its state); the \<^verbatim>\<open>*bufio.Reader\<close> is \<open>None\<close> for \<^verbatim>\<open>nil\<close> and
  otherwise holds the bytes that are buffered and not yet consumed, oldest first, so that
  \<^verbatim>\<open>Buffered()\<close> is their number.
\<close>

record 'c bufConn =
  Conn :: 'c
  Reader :: "byte list option"

text \<open>
  The result of a \<^verbatim>\<open>Read(p)\<close>: the bytes written to the front of \<^verbatim>\<open>p\<close> (their number
  is the returned \<^verbatim>\<open>n\<close>) and the error. A read of the embedded connection is a parameter
  \<open>rd\<close> taking the connection and \<^verbatim>\<open>len(p)\<close>.
\<close>

type_synonym read_result = "byte list \<times> go_error option"

type_synonym 'c conn_read = "'c \<Rightarrow> nat \<Rightarrow> read_result \<times> 'c"

text \<open>
  \<^verbatim>\<open>bufio.Reader.Read(p)\<close> on a reader whose buffer is not empty: it copies
  \<^verbatim>\<open>min(len(p), Buffered())\<close> bytes out of the buffer, returns a nil error and does not
  touch the underlying reader (for \<^verbatim>\<open>len(p) = 0\<close> it returns \<^verbatim>\<open>0, nil\<close>). This is the
  only situation in which \<^verbatim>\<open>bufConn.Read\<close> calls it.
\<close>

definition bufio_Read_buffered :: "byte list \<Rightarrow> nat \<Rightarrow> read_result \<times> byte list" where
  "bufio_Read_buffered b lenp = ((take lenp b, None), drop lenp b)"

text \<open>\<^verbatim>\<open>func (c *bufConn) Read(p []byte) (int, error)\<close>, with \<open>lenp\<close> for \<^verbatim>\<open>len(p)\<close>.\<close>

definition bufConn_Read :: "'c conn_read \<Rightarrow> 'c bufConn \<Rightarrow> nat \<Rightarrow> read_result \<times> 'c bufConn" where
  "bufConn_Read rd c lenp =
     (case Reader c of
        None \<Rightarrow>
          (let (res, cn) = rd (Conn c) lenp in (res, c\<lparr>Conn := cn\<rparr>))
      | Some b \<Rightarrow>
          (let n = length b in
           if n = 0 then
             (let (res, cn) = rd (Conn c) lenp in (res, c\<lparr>Conn := cn, Reader := None\<rparr>))
           else
             (let lenp' = (if n < lenp then n else lenp);
                  (res, b') = bufio_Read_buffered b lenp'
              in (res, c\<lparr>Reader := Some b'\<rparr>))))"

text \<open>
  A sequence of \<^verbatim>\<open>Read\<close> calls, one per element of the list of buffer lengths, on the
  decorated connection and on a bare connection: the results in call order and the final
  state.
\<close>

fun bufConn_Reads :: "'c conn_read \<Rightarrow> 'c bufConn \<Rightarrow> nat list \<Rightarrow> read_result list \<times> 'c bufConn" where
  "bufConn_Reads rd c [] = ([], c)"
| "bufConn_Reads rd c (lenp # ps) =
     (let (res, c') = bufConn_Read rd c lenp;
          (rs, c'') = bufConn_Reads rd c' ps
      in (res # rs, c''))"

fun conn_Reads :: "'c conn_read \<Rightarrow> 'c \<Rightarrow> nat list \<Rightarrow> read_result list \<times> 'c" where
  "conn_Reads rd cn [] = ([], cn)"
| "conn_Reads rd cn (lenp # ps) =
     (let (res, cn') = rd cn lenp;
          (rs, cn'') = conn_Reads rd cn' ps
      in (res # rs, cn''))"

text \<open>All bytes a sequence of reads delivered, in order.\<close>

definition bytes_read :: "read_result list \<Rightarrow> byte list" where
  "bytes_read rs = concat (map fst rs)"

section \<open>The middleware and the Go runtime state it uses\<close>

text \<open>
  A hijacked \<^verbatim>\<open>net.Conn\<close> is identified by a number. The connection that
  \<^verbatim>\<open>acceptProxy\<close> hands to \<^verbatim>\<open>NewClientConn\<close> is either that raw connection or a
  \<^verbatim>\<open>*bufConn\<close> around it; an \<^verbatim>\<open>*http2.ClientConn\<close> is identified by the connection
  it was built over.
\<close>

datatype net_Conn = RawConn nat | BufConn "nat bufConn"

datatype ClientConn = ClientConn net_Conn

text \<open>A channel \<^verbatim>\<open>chan struct{}\<close> is identified by the order in which it was made.\<close>

type_synonym chan = nat

text \<open>
  \<^verbatim>\<open>httputil.ReverseProxy\<close> with the two fields cp.go sets, and
  \<^verbatim>\<open>type handler struct { proxy *httputil.ReverseProxy; done chan struct{} }\<close>, whose
  field \<^verbatim>\<open>done\<close> is \<open>done_ch\<close> here. Two handlers made by different registrations differ
  in their channel, so that the record stands for the pointer \<^verbatim>\<open>*handler\<close> too.
\<close>

record ReverseProxy =
  Transport :: ClientConn
  Director :: "Request \<Rightarrow> Request"

record handler =
  proxy :: ReverseProxy
  done_ch :: chan

text \<open>
  \<^verbatim>\<open>type Middleware struct { Secret string; handler atomic.Value }\<close>: the
  \<^verbatim>\<open>atomic.Value\<close> is empty (\<open>None\<close>) or holds a \<^verbatim>\<open>*handler\<close>.
\<close>

record Middleware =
  Secret :: string
  handler :: "handler option"

text \<open>
  The state shared by all goroutines: the middleware, the channels (how many were made,
  and which were closed, in the order of the \<^verbatim>\<open>close\<close> calls), the connections taken
  over by \<^verbatim>\<open>Hijack\<close>, the connections on which cp.go called \<^verbatim>\<open>Close\<close>, and, as a fact
  of the environment that cp.go never reads, the connections that have died (closed by the
  peer or broken), whose \<^verbatim>\<open>ClientConn\<close> reports itself dead.
\<close>

record state =
  mw :: Middleware
  nchans :: nat
  closed :: "chan list"
  hijacked :: "nat list"
  conn_closed :: "nat list"
  dead :: "nat list"

text \<open>\<^verbatim>\<open>new(Middleware)\<close> with the secret set from the configuration, nothing else having run.\<close>

definition fresh :: "string \<Rightarrow> state" where
  "fresh sec = \<lparr>mw = \<lparr>Secret = sec, handler = None\<rparr>, nchans = 0, closed = [],
                hijacked = [], conn_closed = [], dead = []\<rparr>"

text \<open>\<^verbatim>\<open>func (m *Middleware) Validate() error\<close>.\<close>

definition Validate :: "Middleware \<Rightarrow> go_error option" where
  "Validate m = (if Secret m = '''' then Some (Err ''no secret'') else None)"

text \<open>
  What one call of \<^verbatim>\<open>ServeHTTP(w, r, next)\<close> receives from outside: the request, and
  the results the response writer and the HTTP/2 library give on this connection.
  \<open>EnableFullDuplex\<close> and \<open>Hijack\<close> are the results of the \<^verbatim>\<open>ResponseController\<close>
  methods on \<^verbatim>\<open>w\<close>; a successful \<open>Hijack\<close> yields the connection, the result of
  \<^verbatim>\<open>buf.Flush()\<close> and the bytes still held by \<^verbatim>\<open>buf.Reader\<close>. \<open>NewClientConn\<close> is the
  error of \<^verbatim>\<open>h2t.NewClientConn(conn)\<close> and \<open>Shutdown\<close> the error of
  \<^verbatim>\<open>h2conn.Shutdown(ctx)\<close>, which returns at the latest when the context's timeout
  \<^verbatim>\<open>shutdownTimeout\<close> expires. \<open>call_w\<close> and \<open>call_r\<close> are the parameters \<^verbatim>\<open>w\<close> and
  \<^verbatim>\<open>r\<close>.
\<close>

record Hijacked =
  conn :: nat
  Flush :: "go_error option"
  Buffered :: "byte list"

record ResponseWriter =
  EnableFullDuplex :: "go_error option"
  Hijack :: "go_error + Hijacked"

record call =
  call_w :: ResponseWriter
  call_r :: Request
  NewClientConn :: "go_error option"
  Shutdown :: "go_error option"

subsection \<open>The operations on shared state\<close>

text \<open>\<^verbatim>\<open>m.handler.Load().(*handler)\<close> and \<^verbatim>\<open>m.handler.Store(h)\<close>.\<close>

definition Load :: "state \<Rightarrow> handler option" where
  "Load s = handler (mw s)"

definition Store :: "handler \<Rightarrow> state \<Rightarrow> state" where
  "Store h s = s\<lparr>mw := (mw s)\<lparr>handler := Some h\<rparr>\<rparr>"

text \<open>
  \<^verbatim>\<open>close(ch)\<close>: closing a channel that is already closed panics (\<open>None\<close>).
  \<^verbatim>\<open>make(chan struct{})\<close> returns a channel distinct from all earlier ones.
\<close>

definition close_chan :: "chan \<Rightarrow> state \<Rightarrow> state option" where
  "close_chan ch s =
     (if ch \<in> set (closed s) then None else Some (s\<lparr>closed := closed s @ [ch]\<rparr>))"

definition make_chan :: "state \<Rightarrow> chan \<times> state" where
  "make_chan s = (nchans s, s\<lparr>nchans := Suc (nchans s)\<rparr>)"

text \<open>\<^verbatim>\<open>conn.Close()\<close>, as the deferred call of \<^verbatim>\<open>acceptProxy\<close> makes it.\<close>

definition conn_Close :: "nat \<Rightarrow> state \<Rightarrow> state" where
  "conn_Close cn s = s\<lparr>conn_closed := conn_closed s @ [cn]\<rparr>"

text \<open>An event of the environment: connection \<open>cn\<close> dies.\<close>

definition conn_dies :: "nat \<Rightarrow> state \<Rightarrow> state" where
  "conn_dies cn s = s\<lparr>dead := cn # dead s\<rparr>"

text \<open>
  The value stored by \<^verbatim>\<open>acceptProxy\<close>:
  \<^verbatim>\<open>&handler{done: done, proxy: &httputil.ReverseProxy{Transport: h2conn, Director: ...}}\<close>,
  whose director only executes \<^verbatim>\<open>r.URL.Scheme = "https"\<close>.
\<close>

definition new_handler :: "ClientConn \<Rightarrow> chan \<Rightarrow> handler" where
  "new_handler h2conn d =
     \<lparr>proxy = \<lparr>Transport = h2conn, Director = (\<lambda>r. r\<lparr>URL_Scheme := ''https''\<rparr>)\<rparr>,
      done_ch = d\<rparr>"

subsection \<open>acceptProxy and ServeHTTP\<close>

text \<open>
  Lines 69 to 87 of \<^verbatim>\<open>acceptProxy\<close>: \<^verbatim>\<open>EnableFullDuplex\<close>, \<^verbatim>\<open>Hijack\<close>,
  \<^verbatim>\<open>defer conn.Close()\<close>, \<^verbatim>\<open>Flush\<close>, the \<^verbatim>\<open>bufConn\<close> decoration and
  \<^verbatim>\<open>NewClientConn\<close>. The result is the error returned, or the hijacked connection and
  the \<^verbatim>\<open>ClientConn\<close>; a return after the \<^verbatim>\<open>defer\<close> closes the connection.
\<close>

definition acceptProxy_setup :: "call \<Rightarrow> state \<Rightarrow> (go_error + nat \<times> ClientConn) \<times> state" where
  "acceptProxy_setup c s =
     (case EnableFullDuplex (call_w c) of
        Some err \<Rightarrow> (Inl (Wrap ''client_proxy: must connect using HTTP/1.1'' err), s)
      | None \<Rightarrow>
          (case Hijack (call_w c) of
             Inl err \<Rightarrow> (Inl (Wrap ''client_proxy: must connect using HTTP/1.1'' err), s)
           | Inr hj \<Rightarrow>
               (let s1 = s\<lparr>hijacked := hijacked s @ [conn hj]\<rparr> in
                case Flush hj of
                  Some err \<Rightarrow>
                    (Inl (Wrap ''client_proxy: unexpected flush error'' err),
                     conn_Close (conn hj) s1)
                | None \<Rightarrow>
                    (let cn = (if length (Buffered hj) > 0
                               then BufConn \<lparr>Conn = conn hj, Reader = Some (Buffered hj)\<rparr>
                               else RawConn (conn hj))
                     in case NewClientConn c of
                          Some err \<Rightarrow>
                            (Inl (Wrap ''client_proxy: unable to create ClientConn'' err),
                             conn_Close (conn hj) s1)
                        | None \<Rightarrow> (Inr (conn hj, ClientConn cn), s1)))))"

text \<open>
  How far a call of \<^verbatim>\<open>acceptProxy\<close> has come when it stops running: it has returned
  an error or nil, it has panicked, or it is blocked in \<^verbatim>\<open><-done\<close> (holding the hijacked
  connection, \<^verbatim>\<open>h2conn\<close> and \<^verbatim>\<open>done\<close>).
\<close>

datatype progress =
    Returned (result: "go_error option")
  | Panicked
  | is_Receiving: Receiving (r_conn: nat) (r_h2conn: ClientConn) (r_done: chan)

text \<open>
  \<^verbatim>\<open>acceptProxy\<close> from its entry to the receive on \<^verbatim>\<open>done\<close> (lines 69 to 105), run
  without interruption.
\<close>

definition acceptProxy_begin :: "call \<Rightarrow> state \<Rightarrow> progress \<times> state" where
  "acceptProxy_begin c s =
     (case acceptProxy_setup c s of
        (Inl err, s1) \<Rightarrow> (Returned (Some err), s1)
      | (Inr (cn, h2conn), s1) \<Rightarrow>
          (case (case Load s1 of
                   Some h \<Rightarrow> close_chan (done_ch h) s1
                 | None \<Rightarrow> Some s1) of
             None \<Rightarrow> (Panicked, conn_Close cn s1)
           | Some s2 \<Rightarrow>
               (let (d, s3) = make_chan s2
                in (Receiving cn h2conn d, Store (new_handler h2conn d) s3))))"

text \<open>
  \<^verbatim>\<open>acceptProxy\<close> from the receive on \<^verbatim>\<open>done\<close> to its return (lines 105 to 115):
  \<open>None\<close> while the channel is open and the call stays blocked, otherwise the error
  returned and the state after the deferred \<^verbatim>\<open>conn.Close()\<close>.
\<close>

definition acceptProxy_end :: "call \<Rightarrow> nat \<Rightarrow> chan \<Rightarrow> state \<Rightarrow> (go_error option \<times> state) option" where
  "acceptProxy_end c cn d s =
     (if d \<in> set (closed s) then
        Some ((case Shutdown c of
                 None \<Rightarrow> None
               | Some err \<Rightarrow>
                   if errors_Is_ErrClosed err then None
                   else Some (Wrap ''client_proxy: error shutting down ClientConn'' err)),
              conn_Close cn s)
      else None)"

text \<open>
  What \<^verbatim>\<open>ServeHTTP\<close> did with a request: it ran \<^verbatim>\<open>acceptProxy\<close>, it called
  \<^verbatim>\<open>handler.proxy.ServeHTTP(w, r)\<close> on the loaded handler and returned nil, or it
  returned \<^verbatim>\<open>next.ServeHTTP(w, r)\<close>.
\<close>

datatype served = is_Accepting: Accepting progress | Proxied handler | Next

definition ServeHTTP :: "call \<Rightarrow> state \<Rightarrow> served \<times> state" where
  "ServeHTTP c s =
     (if Header_Get (Header (call_r c)) ''X-Client-Proxy'' = Secret (mw s) then
        (let (p, s') = acceptProxy_begin c s in (Accepting p, s'))
      else
        (case Load s of
           Some h \<Rightarrow> (Proxied h, s)
         | None \<Rightarrow> (Next, s)))"

subsection \<open>Goroutines\<close>

text \<open>
  The same code, one shared-state operation at a time, so that calls can interleave. A
  program counter names the next operation of a goroutine serving one request and holds
  its local variables (\<^verbatim>\<open>conn\<close>, \<^verbatim>\<open>h2conn\<close>, the loaded \<^verbatim>\<open>handler\<close>, \<^verbatim>\<open>done\<close>).
\<close>

datatype pc =
    pc_ServeHTTP
  | pc_forward
  | pc_setup
  | is_pc_Load: pc_Load nat ClientConn
  | is_pc_close: pc_close nat ClientConn handler
  | pc_make nat ClientConn
  | is_pc_Store: pc_Store nat ClientConn chan
  | pc_recv nat ClientConn chan
  | pc_Shutdown nat ClientConn
  | pc_done served

text \<open>One operation of a goroutine; \<open>None\<close> when it is blocked or has finished.\<close>

fun step :: "call \<Rightarrow> pc \<Rightarrow> state \<Rightarrow> (pc \<times> state) option" where
  "step c pc_ServeHTTP s =
     Some (if Header_Get (Header (call_r c)) ''X-Client-Proxy'' = Secret (mw s)
           then pc_setup else pc_forward, s)"
| "step c pc_forward s =
     Some (case Load s of Some h \<Rightarrow> pc_done (Proxied h) | None \<Rightarrow> pc_done Next, s)"
| "step c pc_setup s =
     (case acceptProxy_setup c s of
        (Inl err, s') \<Rightarrow> Some (pc_done (Accepting (Returned (Some err))), s')
      | (Inr (cn, h2conn), s') \<Rightarrow> Some (pc_Load cn h2conn, s'))"
| "step c (pc_Load cn h2conn) s =
     Some (case Load s of Some h \<Rightarrow> pc_close cn h2conn h | None \<Rightarrow> pc_make cn h2conn, s)"
| "step c (pc_close cn h2conn h) s =
     (case close_chan (done_ch h) s of
        None \<Rightarrow> Some (pc_done (Accepting Panicked), conn_Close cn s)
      | Some s' \<Rightarrow> Some (pc_make cn h2conn, s'))"
| "step c (pc_make cn h2conn) s =
     (let (d, s') = make_chan s in Some (pc_Store cn h2conn d, s'))"
| "step c (pc_Store cn h2conn d) s =
     Some (pc_recv cn h2conn d, Store (new_handler h2conn d) s)"
| "step c (pc_recv cn h2conn d) s =
     (if d \<in> set (closed s) then Some (pc_Shutdown cn h2conn, s) else None)"
| "step c (pc_Shutdown cn h2conn) s =
     Some (pc_done (Accepting (Returned
             (case Shutdown c of
                None \<Rightarrow> None
              | Some err \<Rightarrow>
                  if errors_Is_ErrClosed err then None
                  else Some (Wrap ''client_proxy: error shutting down ClientConn'' err)))),
           conn_Close cn s)"
| "step c (pc_done x) s = None"

text \<open>
  A system of goroutines, one per request, over the shared state; a schedule is the list
  of goroutines in the order in which they take a step (a goroutine that cannot step
  leaves the system as it is).
\<close>

record goroutine =
  g_call :: call
  g_pc :: pc

record system =
  shared :: state
  goroutines :: "goroutine list"

definition spawn :: "string \<Rightarrow> call list \<Rightarrow> system" where
  "spawn sec cs = \<lparr>shared = fresh sec,
                   goroutines = map (\<lambda>c. \<lparr>g_call = c, g_pc = pc_ServeHTTP\<rparr>) cs\<rparr>"

definition sys_step :: "nat \<Rightarrow> system \<Rightarrow> system" where
  "sys_step i sys =
     (if i < length (goroutines sys) then
        (let g = goroutines sys ! i in
         case step (g_call g) (g_pc g) (shared sys) of
           None \<Rightarrow> sys
         | Some (pc', s') \<Rightarrow>
             \<lparr>shared = s', goroutines = (goroutines sys)[i := g\<lparr>g_pc := pc'\<rparr>]\<rparr>)
      else sys)"

fun exec :: "nat list \<Rightarrow> system \<Rightarrow> system" where
  "exec [] sys = sys"
| "exec (i # sched) sys = exec sched (sys_step i sys)"

text \<open>
  Whether a goroutine at the given program counter still holds channel \<open>d\<close> in a local
  variable through which it can be closed or stored: as the \<^verbatim>\<open>done\<close> of the handler it
  loaded and is about to close, or as the channel it made and is about to store. A channel
  is orphaned when it was made, is open, is not the \<^verbatim>\<open>done\<close> of the stored handler, and
  no goroutine holds it; a goroutine that only waits in a receive on it does not hold it.
\<close>

fun holds_done :: "chan \<Rightarrow> pc \<Rightarrow> bool" where
  "holds_done d (pc_close cn h2conn h) = (done_ch h = d)"
| "holds_done d (pc_Store cn h2conn d') = (d' = d)"
| "holds_done d p = False"

definition orphaned :: "chan \<Rightarrow> system \<Rightarrow> bool" where
  "orphaned d sys =
     (d < nchans (shared sys) \<and> d \<notin> set (closed (shared sys)) \<and>
      (case Load (shared sys) of None \<Rightarrow> True | Some h \<Rightarrow> done_ch h \<noteq> d) \<and>
      list_all (\<lambda>g. \<not> holds_done d (g_pc g)) (goroutines sys))"

subsection \<open>Runs without interleaving\<close>

text \<open>Registrations run one after the other, each up to its receive on \<^verbatim>\<open>done\<close>.\<close>

fun registrations :: "call list \<Rightarrow> state \<Rightarrow> progress list \<times> state" where
  "registrations [] s = ([], s)"
| "registrations (c # cs) s =
     (let (p, s') = acceptProxy_begin c s;
          (ps, s'') = registrations cs s'
      in (p # ps, s''))"

text \<open>The handler a registration blocked in its receive has stored.\<close>

definition stored :: "progress \<Rightarrow> handler option" where
  "stored p = (case p of Receiving cn h2conn d \<Rightarrow> Some (new_handler h2conn d) | _ \<Rightarrow> None)"

text \<open>
  A call on which every set-up operation of \<^verbatim>\<open>acceptProxy\<close> succeeds, and a state in
  which the channels are as the Go runtime keeps them at a moment when no registration is
  between its \<^verbatim>\<open>Load\<close> and its \<^verbatim>\<open>Store\<close>: only made channels are closed, none twice,
  and the channel of the stored handler is made and open.
\<close>

definition promotes :: "call \<Rightarrow> bool" where
  "promotes c =
     (EnableFullDuplex (call_w c) = None \<and>
      (case Hijack (call_w c) of Inl err \<Rightarrow> False | Inr hj \<Rightarrow> Flush hj = None) \<and>
      NewClientConn c = None)"

definition quiescent :: "state \<Rightarrow> bool" where
  "quiescent s =
     (list_all (\<lambda>ch. ch < nchans s) (closed s) \<and> distinct (closed s) \<and>
      (case Load s of
         None \<Rightarrow> True
       | Some h \<Rightarrow> done_ch h < nchans s \<and> done_ch h \<notin> set (closed s)))"

text \<open>
  A goroutine run for at most \<open>n\<close> operations, stopping early where it blocks or has
  finished; and the program counter at which a call of \<^verbatim>\<open>acceptProxy\<close> with the given
  progress stands.
\<close>

fun run :: "nat \<Rightarrow> call \<Rightarrow> pc \<times> state \<Rightarrow> pc \<times> state" where
  "run 0 c x = x"
| "run (Suc n) c (p, s) = (case step c p s of None \<Rightarrow> (p, s) | Some x' \<Rightarrow> run n c x')"

fun pc_of :: "progress \<Rightarrow> pc" where
  "pc_of (Returned e) = pc_done (Accepting (Returned e))"
| "pc_of Panicked = pc_done (Accepting Panicked)"
| "pc_of (Receiving cn h2conn d) = pc_recv cn h2conn d"

text \<open>
  The connection under a \<^verbatim>\<open>ClientConn\<close>, and whether the transport of the stored
  handler runs over a connection that has died.
\<close>

fun conn_of :: "ClientConn \<Rightarrow> nat" where
  "conn_of (ClientConn (RawConn cn)) = cn"
| "conn_of (ClientConn (BufConn b)) = Conn b"

definition transport_dead :: "state \<Rightarrow> bool" where
  "transport_dead s =
     (case Load s of
        None \<Rightarrow> False
      | Some h \<Rightarrow> conn_of (Transport (proxy h)) \<in> set (dead s))"

text \<open>
  The number of leading reads, in a sequence of reads with the given buffer lengths, that
  \<^verbatim>\<open>bufConn.Read\<close> answers from a buffer holding \<open>n\<close> bytes: each takes \<^verbatim>\<open>len(p)\<close>
  bytes or what is left, until nothing is left.
\<close>

fun buffered_reads :: "nat \<Rightarrow> nat list \<Rightarrow> nat" where
  "buffered_reads n [] = 0"
| "buffered_reads n (lenp # ps) = (if n = 0 then 0 else Suc (buffered_reads (n - lenp) ps))"

subsection \<open>Sample requests\<close>

text \<open>
  A registration request carrying credential \<open>cred\<close> on connection \<open>cn\<close>, on which every
  operation succeeds; and an ordinary request without the credential header. Both arrive
  in origin form, so that \<^verbatim>\<open>r.URL.Scheme\<close> and \<^verbatim>\<open>r.URL.Host\<close> are empty and the
  inbound authority is in \<^verbatim>\<open>r.Host\<close>.
\<close>

definition registering :: "string \<Rightarrow> nat \<Rightarrow> call" where
  "registering cred cn =
     \<lparr>call_w = \<lparr>EnableFullDuplex = None,
                Hijack = Inr \<lparr>conn = cn, Flush = None, Buffered = []\<rparr>\<rparr>,
      call_r = \<lparr>Header = [(''X-Client-Proxy'', [cred])], URL_Scheme = '''', URL_Host = '''',
                Host = ''public.example.com''\<rparr>,
      NewClientConn = None,
      Shutdown = None\<rparr>"

definition ordinary :: "nat \<Rightarrow> call" where
  "ordinary cn =
     \<lparr>call_w = \<lparr>EnableFullDuplex = None,
                Hijack = Inr \<lparr>conn = cn, Flush = None, Buffered = []\<rparr>\<rparr>,
      call_r = \<lparr>Header = [(''Accept'', [''text/html''])], URL_Scheme = '''', URL_Host = '''',
                Host = ''public.example.com''\<rparr>,
      NewClientConn = None,
      Shutdown = None\<rparr>"

section \<open>Properties of bufConn\<close>

lemma bufConn_Reads_nil_Reader:
  "Reader c = None \<Longrightarrow>
     fst (bufConn_Reads rd c ps) = fst (conn_Reads rd (Conn c) ps) \<and>
     Conn (snd (bufConn_Reads rd c ps)) = snd (conn_Reads rd (Conn c) ps)"
proof (induction ps arbitrary: c)
  case Nil
  then show ?case by simp
next
  case (Cons p ps)
  obtain res cn where r: "rd (Conn c) p = (res, cn)" by (cases "rd (Conn c) p")
  let ?c' = "c\<lparr>Conn := cn\<rparr>"
  have rd1: "bufConn_Read rd c p = (res, ?c')"
    using Cons.prems r by (simp add: bufConn_Read_def)
  have "Reader ?c' = None" using Cons.prems by simp
  from Cons.IH[OF this] show ?case
    using rd1 r by (simp add: split_beta)
qed

lemma bufConn_Reads_drained:
  "Reader c = Some [] \<Longrightarrow>
     fst (bufConn_Reads rd c ps) = fst (conn_Reads rd (Conn c) ps) \<and>
     Conn (snd (bufConn_Reads rd c ps)) = snd (conn_Reads rd (Conn c) ps)"
proof (cases ps)
  case Nil
  then show ?thesis by simp
next
  case (Cons p ps')
  assume e: "Reader c = Some []"
  obtain res cn where r: "rd (Conn c) p = (res, cn)" by (cases "rd (Conn c) p")
  let ?c' = "c\<lparr>Conn := cn, Reader := None\<rparr>"
  have rd1: "bufConn_Read rd c p = (res, ?c')"
    using e r by (simp add: bufConn_Read_def)
  have "Reader ?c' = None" by simp
  from bufConn_Reads_nil_Reader[OF this, of rd ps'] show ?thesis
    using rd1 r Cons by (simp add: split_beta)
qed

lemma bufConn_Read_from_buffer:
  "Reader c = Some buf \<Longrightarrow> buf \<noteq> [] \<Longrightarrow>
     bufConn_Read rd c p = ((take p buf, None), c\<lparr>Reader := Some (drop p buf)\<rparr>)"
  by (simp add: bufConn_Read_def bufio_Read_buffered_def Let_def)

lemma bufConn_Reads_general:
  "Reader c = Some buf \<Longrightarrow>
   (let k = buffered_reads (length buf) ps; rs = fst (bufConn_Reads rd c ps) in
      bytes_read (take k rs) = take (sum_list (take k ps)) buf \<and>
      list_all (\<lambda>res. snd res = None) (take k rs) \<and>
      drop k rs = fst (conn_Reads rd (Conn c) (drop k ps)) \<and>
      Conn (snd (bufConn_Reads rd c ps)) = snd (conn_Reads rd (Conn c) (drop k ps)) \<and>
      (k = length ps \<or> length buf \<le> sum_list (take k ps)))"
proof (induction ps arbitrary: c buf)
  case Nil
  then show ?case by (simp add: bytes_read_def)
next
  case (Cons p ps)
  show ?case
  proof (cases "buf = []")
    case True
    with Cons.prems have "Reader c = Some []" by simp
    from bufConn_Reads_drained[OF this, of rd "p # ps"] True show ?thesis
      by (simp add: bytes_read_def Let_def)
  next
    case False
    let ?c' = "c\<lparr>Reader := Some (drop p buf)\<rparr>"
    have rd1: "bufConn_Read rd c p = ((take p buf, None), ?c')"
      using bufConn_Read_from_buffer[OF Cons.prems False] .
    have "Reader ?c' = Some (drop p buf)" by simp
    note ih = Cons.IH[OF this]
    have tk: "\<And>j. take p buf @ take j (drop p buf) = take (p + j) buf"
      by (simp add: take_add)
    show ?thesis
      using ih False rd1
      by (auto simp add: Let_def split_beta bytes_read_def tk)
  qed
qed

lemma setup_decorates_buffered:
  assumes "promotes cl" and "Hijack (call_w cl) = Inr hj"
  shows "fst (acceptProxy_setup cl s) =
           Inr (conn hj, ClientConn (if 0 < length (Buffered hj)
                                     then BufConn \<lparr>Conn = conn hj, Reader = Some (Buffered hj)\<rparr>
                                     else RawConn (conn hj)))"
  using assms by (simp add: acceptProxy_setup_def promotes_def Let_def split: option.splits)

text \<open>
  C7. A registration on a connection whose pipeline reader holds \<open>K > 0\<close> buffered bytes
  \<open>buf\<close> at hijack time hands to \<^verbatim>\<open>NewClientConn\<close> a \<^verbatim>\<open>bufConn\<close> whose reader holds
  \<open>buf\<close>. Any sequence of \<^verbatim>\<open>Read\<close> calls, with buffer lengths \<open>ps\<close>, on a \<^verbatim>\<open>bufConn\<close>
  with that reader goes as follows: the first \<open>k\<close> calls are answered from the buffer
  without error and deliver, in order, the first \<open>sum_list (take k ps)\<close> bytes of \<open>buf\<close>;
  every later call is exactly a read of the underlying connection, which the first \<open>k\<close>
  calls have not touched; and if there is a later call at all, the first \<open>k\<close> calls have
  delivered the whole of \<open>buf\<close>.
\<close>

theorem bufConn_replays_buffer_first:
  assumes "Reader c = Some buf" and "0 < length buf"
    and "promotes cl" and "Hijack (call_w cl) = Inr hj" and "Buffered hj = buf"
  shows "fst (acceptProxy_setup cl s) =
           Inr (conn hj, ClientConn (BufConn \<lparr>Conn = conn hj, Reader = Some buf\<rparr>)) \<and>
     (let k = buffered_reads (length buf) ps; rs = fst (bufConn_Reads rd c ps) in
      bytes_read (take k rs) = take (sum_list (take k ps)) buf \<and>
      list_all (\<lambda>res. snd res = None) (take k rs) \<and>
      drop k rs = fst (conn_Reads rd (Conn c) (drop k ps)) \<and>
      Conn (snd (bufConn_Reads rd c ps)) = snd (conn_Reads rd (Conn c) (drop k ps)) \<and>
      (k = length ps \<or> length buf \<le> sum_list (take k ps)))"
  using bufConn_Reads_general[OF assms(1)] setup_decorates_buffered[OF assms(3,4), of s] assms(2,5)
  by simp

theorem bufConn_replays_buffer_first_witness:
  "Reader \<lparr>Conn = [4, 5, 6, 7 :: byte], Reader = Some [1, 2, 3]\<rparr> = Some [1, 2, 3] \<and>
   0 < length [1, 2, 3 :: byte] \<and>
   promotes ((registering ''s3cret'' 1)\<lparr>call_w := \<lparr>EnableFullDuplex = None,
       Hijack = Inr \<lparr>conn = 1, Flush = None, Buffered = [1, 2, 3]\<rparr>\<rparr>\<rparr>) \<and>
   Hijack (call_w ((registering ''s3cret'' 1)\<lparr>call_w := \<lparr>EnableFullDuplex = None,
       Hijack = Inr \<lparr>conn = 1, Flush = None, Buffered = [1, 2, 3]\<rparr>\<rparr>\<rparr>)) =
     Inr \<lparr>conn = 1, Flush = None, Buffered = [1, 2, 3]\<rparr> \<and>
   Buffered \<lparr>conn = 1, Flush = None, Buffered = [1, 2, 3]\<rparr> = [1, 2, 3] \<and>
   fst (acceptProxy_setup ((registering ''s3cret'' 1)\<lparr>call_w := \<lparr>EnableFullDuplex = None,
       Hijack = Inr \<lparr>conn = 1, Flush = None, Buffered = [1, 2, 3]\<rparr>\<rparr>\<rparr>) (fresh ''s3cret'')) =
     Inr (1, ClientConn (BufConn \<lparr>Conn = 1, Reader = Some [1, 2, 3]\<rparr>)) \<and>
   buffered_reads (length [1, 2, 3 :: byte]) [2, 2, 2] = 2 \<and>
   fst (bufConn_Reads (\<lambda>cn n. ((take n cn, None), drop n cn))
          \<lparr>Conn = [4, 5, 6, 7], Reader = Some [1, 2, 3]\<rparr> [2, 2, 2]) =
     [([1, 2], None), ([3], None), ([4, 5], None)] \<and>
   bytes_read (take 2 (fst (bufConn_Reads (\<lambda>cn n. ((take n cn, None), drop n cn))
          \<lparr>Conn = [4, 5, 6, 7], Reader = Some [1, 2, 3]\<rparr> [2, 2, 2]))) = [1, 2, 3] \<and>
   drop 2 (fst (bufConn_Reads (\<lambda>cn n. ((take n cn, None), drop n cn))
          \<lparr>Conn = [4, 5, 6, 7], Reader = Some [1, 2, 3]\<rparr> [2, 2, 2])) =
     fst (conn_Reads (\<lambda>cn n. ((take n cn, None), drop n cn)) [4, 5, 6, 7] [2])"
proof -
  let ?c = "\<lparr>Conn = [4, 5, 6, 7 :: byte], Reader = Some [1, 2, 3]\<rparr>"
  let ?rd = "\<lambda>(cn :: byte list) n. ((take n cn, None :: go_error option), drop n cn)"
  let ?hj = "\<lparr>conn = 1, Flush = None, Buffered = [1, 2, 3]\<rparr>"
  let ?cl = "(registering ''s3cret'' 1)\<lparr>call_w := \<lparr>EnableFullDuplex = None, Hijack = Inr ?hj\<rparr>\<rparr>"
  have h1: "Reader ?c = Some [1, 2, 3]" by simp
  have h2: "0 < length [1, 2, 3 :: byte]" by simp
  have h3: "promotes ?cl" by (simp add: promotes_def registering_def)
  have h4: "Hijack (call_w ?cl) = Inr ?hj" by simp
  have h5: "Buffered ?hj = [1, 2, 3]" by simp
  have k: "buffered_reads (length [1, 2, 3 :: byte]) [2, 2, 2] = 2" by simp
  have rs: "fst (bufConn_Reads ?rd ?c [2, 2, 2]) = [([1, 2], None), ([3], None), ([4, 5], None)]"
    by (simp add: bufConn_Read_def bufio_Read_buffered_def)
  note t = bufConn_replays_buffer_first[OF h1 h2 h3 h4 h5, of "fresh ''s3cret''" "[2, 2, 2]" ?rd,
      unfolded Let_def k]
  have a: "fst (acceptProxy_setup ?cl (fresh ''s3cret'')) =
             Inr (1, ClientConn (BufConn \<lparr>Conn = 1, Reader = Some [1, 2, 3]\<rparr>))"
    using t by simp
  have b: "bytes_read (take 2 (fst (bufConn_Reads ?rd ?c [2, 2, 2]))) = [1, 2, 3]"
    using t by (simp del: bufConn_Reads.simps)
  have c: "drop 2 (fst (bufConn_Reads ?rd ?c [2, 2, 2])) = fst (conn_Reads ?rd [4, 5, 6, 7] [2])"
    using t by (simp del: bufConn_Reads.simps conn_Reads.simps)
  show ?thesis
    using h1 h2 h3 h4 h5 k rs a b c by (simp del: bufConn_Reads.simps conn_Reads.simps)
qed

section \<open>Properties of the middleware\<close>

subsection \<open>Set-up, channels and goroutine operations\<close>

lemma Header_Get_eq_nonempty:
  "v \<noteq> [] \<Longrightarrow> (Header_Get h k = v) = (\<exists>vs. map_of h k = Some (v # vs))"
  by (auto simp add: Header_Get_def split: option.splits list.splits)

lemma setup_fails_iff: "isl (fst (acceptProxy_setup c s)) = (\<not> promotes c)"
  by (simp add: acceptProxy_setup_def promotes_def Let_def split: option.splits sum.splits)

lemma setup_frame:
  "mw (snd (acceptProxy_setup c s)) = mw s \<and>
   nchans (snd (acceptProxy_setup c s)) = nchans s \<and>
   closed (snd (acceptProxy_setup c s)) = closed s \<and>
   dead (snd (acceptProxy_setup c s)) = dead s"
  by (simp add: acceptProxy_setup_def conn_Close_def Let_def split: option.splits sum.splits)

lemma begin_promotes:
  assumes "quiescent s" "promotes c"
  shows "is_Receiving (fst (acceptProxy_begin c s)) \<and>
         r_done (fst (acceptProxy_begin c s)) = nchans s \<and>
         nchans (snd (acceptProxy_begin c s)) = Suc (nchans s) \<and>
         closed (snd (acceptProxy_begin c s)) =
           closed s @ (case Load s of None \<Rightarrow> [] | Some h \<Rightarrow> [done_ch h]) \<and>
         Load (snd (acceptProxy_begin c s)) = stored (fst (acceptProxy_begin c s)) \<and>
         quiescent (snd (acceptProxy_begin c s))"
proof -
  obtain res s1 where r: "acceptProxy_setup c s = (res, s1)" by (cases "acceptProxy_setup c s")
  have "\<not> isl res" using setup_fails_iff[of c s] assms(2) r by simp
  then obtain cn h2 where e: "res = Inr (cn, h2)" by (cases res) auto
  have fr: "mw s1 = mw s \<and> nchans s1 = nchans s \<and> closed s1 = closed s"
    using setup_frame[of c s] r by simp
  show ?thesis
  proof (cases "Load s")
    case None
    then show ?thesis using r e fr assms(1)
      by (auto simp add: acceptProxy_begin_def Load_def make_chan_def Store_def stored_def
          quiescent_def list_all_iff new_handler_def less_Suc_eq)
  next
    case (Some h)
    then show ?thesis using r e fr assms(1)
      by (auto simp add: acceptProxy_begin_def Load_def make_chan_def Store_def stored_def
          quiescent_def list_all_iff new_handler_def close_chan_def less_Suc_eq)
  qed
qed

lemma stored_Receiving:
  "is_Receiving p \<Longrightarrow> stored p = Some (new_handler (r_h2conn p) (r_done p))"
  by (cases p) (simp_all add: stored_def)

lemma registrations_run:
  assumes "quiescent s" and "\<forall>c\<in>set cs. promotes c"
  shows "length (fst (registrations cs s)) = length cs \<and>
         list_all is_Receiving (fst (registrations cs s)) \<and>
         map r_done (fst (registrations cs s)) = [nchans s ..< nchans s + length cs] \<and>
         nchans (snd (registrations cs s)) = nchans s + length cs \<and>
         closed (snd (registrations cs s)) =
           closed s @ (if cs = [] then []
                       else (case Load s of None \<Rightarrow> [] | Some h \<Rightarrow> [done_ch h]) @
                            [nchans s ..< nchans s + length cs - 1]) \<and>
         Load (snd (registrations cs s)) =
           (if cs = [] then Load s else stored (last (fst (registrations cs s)))) \<and>
         quiescent (snd (registrations cs s))"
  using assms
proof (induction cs arbitrary: s)
  case Nil
  then show ?case by simp
next
  case (Cons c cs)
  obtain p s1 where b: "acceptProxy_begin c s = (p, s1)" by (cases "acceptProxy_begin c s")
  have pc: "promotes c" and rest: "\<forall>c\<in>set cs. promotes c" using Cons.prems(2) by simp_all
  have one: "is_Receiving p" "r_done p = nchans s" "nchans s1 = Suc (nchans s)"
    "closed s1 = closed s @ (case Load s of None \<Rightarrow> [] | Some h \<Rightarrow> [done_ch h])"
    "Load s1 = stored p" "quiescent s1"
    using begin_promotes[OF Cons.prems(1) pc] b by simp_all
  have l1: "Load s1 = Some (new_handler (r_h2conn p) (nchans s))"
    using one(1,2,5) by (cases p) (simp_all add: stored_def)
  note ih = Cons.IH[OF one(6) rest]
  obtain ps s2 where r: "registrations cs s1 = (ps, s2)" by (cases "registrations cs s1")
  have reg: "registrations (c # cs) s = (p # ps, s2)" using b r by simp
  have old1: "(case Load s1 of None \<Rightarrow> [] | Some h \<Rightarrow> [done_ch h]) = [nchans s]"
    using l1 by (simp add: new_handler_def)
  have c1: "length ps = length cs" and c2: "list_all is_Receiving ps"
    and c3: "map r_done ps = [Suc (nchans s) ..< Suc (nchans s) + length cs]"
    and c4: "nchans s2 = Suc (nchans s) + length cs"
    and c5: "closed s2 = closed s1 @ (if cs = [] then []
                 else [nchans s] @ [Suc (nchans s) ..< Suc (nchans s) + length cs - 1])"
    and c6: "Load s2 = (if cs = [] then Load s1 else stored (last ps))"
    and c7: "quiescent s2"
    using ih r one(3) old1 by simp_all
  have up: "[nchans s ..< nchans s + length (c # cs)] =
            nchans s # [Suc (nchans s) ..< Suc (nchans s) + length cs]"
    by (simp add: upt_rec)
  have up2: "cs \<noteq> [] \<Longrightarrow> [nchans s ..< nchans s + length (c # cs) - 1] =
            nchans s # [Suc (nchans s) ..< Suc (nchans s) + length cs - 1]"
    by (cases cs) (simp_all add: upt_rec)
  have g1: "length (p # ps) = length (c # cs)" using c1 by simp
  have g2: "list_all is_Receiving (p # ps)" using c2 one(1) by simp
  have g3: "map r_done (p # ps) = [nchans s ..< nchans s + length (c # cs)]"
    using c3 one(2) up by simp
  have g4: "nchans s2 = nchans s + length (c # cs)" using c4 by simp
  have g5: "closed s2 = closed s @ (case Load s of None \<Rightarrow> [] | Some h \<Rightarrow> [done_ch h]) @
              [nchans s ..< nchans s + length (c # cs) - 1]"
  proof (cases "cs = []")
    case True
    then show ?thesis using c5 one(4) by simp
  next
    case False
    then show ?thesis using c5 one(4) up2[OF False] by simp
  qed
  have g6: "Load s2 = stored (last (p # ps))"
  proof (cases "cs = []")
    case True
    then show ?thesis using c6 c1 one(5) by simp
  next
    case False
    then have "ps \<noteq> []" using c1 by auto
    then show ?thesis using c6 False by simp
  qed
  show ?case
    unfolding reg fst_conv snd_conv using g1 g2 g3 g4 g5 g6 c7 by simp
qed

lemma quiescent_fresh: "quiescent (fresh sec)"
  by (simp add: quiescent_def fresh_def Load_def)

lemma count_list_upt: "count_list [a ..< b] x = (if a \<le> x \<and> x < b then 1 else 0)"
  by (induction b) auto

lemma nth_registration_done:
  assumes "quiescent s" and "\<forall>c\<in>set cs. promotes c" and "i < length cs"
  shows "is_Receiving (fst (registrations cs s) ! i) \<and>
         r_done (fst (registrations cs s) ! i) = nchans s + i"
proof -
  let ?ps = "fst (registrations cs s)"
  note rr = registrations_run[OF assms(1,2)]
  have len: "length ?ps = length cs" and rcv: "list_all is_Receiving ?ps"
    and dn: "map r_done ?ps = [nchans s ..< nchans s + length cs]"
    using rr by simp_all
  have "map r_done ?ps ! i = [nchans s ..< nchans s + length cs] ! i" using dn by simp
  then have "r_done (?ps ! i) = nchans s + i" using assms(3) len by simp
  moreover have "is_Receiving (?ps ! i)"
    using rcv assms(3) len by (simp add: list_all_length)
  ultimately show ?thesis by simp
qed

lemma registrations_closed_count:
  assumes "quiescent s" and "\<forall>c\<in>set cs. promotes c" and "cs \<noteq> []"
  shows "count_list (closed (snd (registrations cs s))) (nchans s + i) =
           (if i < length cs - 1 then 1 else 0)"
proof -
  have cl: "closed (snd (registrations cs s)) =
        closed s @ (case Load s of None \<Rightarrow> [] | Some h \<Rightarrow> [done_ch h]) @
        [nchans s ..< nchans s + length cs - 1]"
    using registrations_run[OF assms(1,2)] assms(3) by simp
  have a: "count_list (closed s) (nchans s + i) = 0"
    using assms(1) by (auto simp add: quiescent_def list_all_iff count_list_0_iff)
  have b: "count_list (case Load s of None \<Rightarrow> [] | Some h \<Rightarrow> [done_ch h]) (nchans s + i) = 0"
    using assms(1) by (auto simp add: quiescent_def split: option.splits)
  have c: "count_list [nchans s ..< nchans s + length cs - 1] (nchans s + i) =
           (if i < length cs - 1 then 1 else 0)"
    using assms(3) by (auto simp add: count_list_upt)
  show ?thesis unfolding cl using a b c by simp
qed

lemma registrations_closed_old:
  assumes "quiescent s" and "\<forall>c\<in>set cs. promotes c" and "cs \<noteq> []" and "Load s = Some h"
  shows "count_list (closed (snd (registrations cs s))) (done_ch h) = 1"
proof -
  have cl: "closed (snd (registrations cs s)) =
        closed s @ [done_ch h] @ [nchans s ..< nchans s + length cs - 1]"
    using registrations_run[OF assms(1,2)] assms(3,4) by simp
  have a: "count_list (closed s) (done_ch h) = 0" and lt: "done_ch h < nchans s"
    using assms(1,4) by (auto simp add: quiescent_def)
  have c: "count_list [nchans s ..< nchans s + length cs - 1] (done_ch h) = 0"
    using lt by (simp add: count_list_upt)
  show ?thesis unfolding cl using a c by simp
qed

text \<open>
  Quiescence holds of a new middleware and is kept by every call of \<^verbatim>\<open>ServeHTTP\<close> run up
  to its return or its receive on \<^verbatim>\<open>done\<close>, and by the rest of \<^verbatim>\<open>acceptProxy\<close> after
  the receive.
\<close>

lemma quiescent_ServeHTTP:
  assumes "quiescent s"
  shows "quiescent (snd (ServeHTTP c s))"
proof (cases "Header_Get (Header (call_r c)) ''X-Client-Proxy'' = Secret (mw s)")
  case False
  then show ?thesis using assms by (simp add: ServeHTTP_def split: option.splits)
next
  case True
  show ?thesis
  proof (cases "promotes c")
    case True
    then show ?thesis
      using begin_promotes[OF assms True] \<open>Header_Get (Header (call_r c)) ''X-Client-Proxy'' = Secret (mw s)\<close>
      by (simp add: ServeHTTP_def split_beta)
  next
    case False
    then have f: "isl (fst (acceptProxy_setup c s))" by (simp add: setup_fails_iff)
    obtain res s1 where r: "acceptProxy_setup c s = (res, s1)" by (cases "acceptProxy_setup c s")
    with f obtain err where e: "res = Inl err" by (cases res) auto
    have fr: "mw s1 = mw s \<and> nchans s1 = nchans s \<and> closed s1 = closed s"
      using setup_frame[of c s] r by simp
    have "snd (acceptProxy_begin c s) = s1" using r e by (simp add: acceptProxy_begin_def)
    then show ?thesis
      using assms fr \<open>Header_Get (Header (call_r c)) ''X-Client-Proxy'' = Secret (mw s)\<close>
      by (simp add: ServeHTTP_def split_beta quiescent_def Load_def split: option.splits)
  qed
qed

lemma quiescent_acceptProxy_end:
  assumes "quiescent s" and "acceptProxy_end c cn d s = Some (e, s')"
  shows "quiescent s'"
  using assms by (auto simp add: acceptProxy_end_def quiescent_def Load_def conn_Close_def
      split: if_splits option.splits)

text \<open>
  The goroutine's operations, run without interruption from the entry of \<^verbatim>\<open>acceptProxy\<close>,
  arrive in at most five operations where \<open>acceptProxy_begin\<close> says.
\<close>

lemma acceptProxy_begin_by_steps:
  "\<exists>n\<le>5. run n c (pc_setup, s) = (pc_of (fst (acceptProxy_begin c s)), snd (acceptProxy_begin c s))"
proof -
  obtain res s1 where r: "acceptProxy_setup c s = (res, s1)" by (cases "acceptProxy_setup c s")
  show ?thesis
  proof (cases res)
    case (Inl err)
    then have "run 1 c (pc_setup, s) = (pc_of (fst (acceptProxy_begin c s)), snd (acceptProxy_begin c s))"
      using r by (simp add: acceptProxy_begin_def)
    then show ?thesis by (intro exI[of _ 1]) simp
  next
    case (Inr x)
    obtain cn h2 where x: "x = (cn, h2)" by (cases x)
    show ?thesis
    proof (cases "Load s1")
      case None
      have "run 4 c (pc_setup, s) = (pc_of (fst (acceptProxy_begin c s)), snd (acceptProxy_begin c s))"
        using r Inr x None by (simp add: acceptProxy_begin_def numeral_eq_Suc make_chan_def)
      then show ?thesis by (intro exI[of _ 4]) simp
    next
      case (Some h)
      have "run 5 c (pc_setup, s) = (pc_of (fst (acceptProxy_begin c s)), snd (acceptProxy_begin c s))"
        using r Inr x Some
        by (simp add: acceptProxy_begin_def numeral_eq_Suc make_chan_def close_chan_def)
      then show ?thesis by (intro exI[of _ 5]) simp
    qed
  qed
qed

text \<open>
  An operation of a goroutine leaves the slot as it is, unless it is the \<^verbatim>\<open>Store\<close> of a
  registration.
\<close>

lemma step_keeps_handler:
  assumes "step c p s = Some (p', s')"
  shows "Load s' = Load s \<or> is_pc_Store p"
proof (cases p)
  case pc_setup
  then show ?thesis
    using assms setup_frame[of c s]
    by (cases "acceptProxy_setup c s") (auto simp add: Load_def split: sum.splits)
qed (use assms in \<open>auto simp add: Load_def close_chan_def make_chan_def conn_Close_def
      split: if_splits option.splits\<close>)

lemma step_keeps_closed:
  assumes "step c p s = Some (p', s')"
  shows "closed s' = closed s \<or> is_pc_close p"
proof (cases p)
  case pc_setup
  then show ?thesis
    using assms setup_frame[of c s]
    by (cases "acceptProxy_setup c s") (auto split: sum.splits)
qed (use assms in \<open>auto simp add: Store_def close_chan_def make_chan_def conn_Close_def
      split: if_splits option.splits\<close>)

text \<open>
  A goroutine is about to close a channel only right after its own \<^verbatim>\<open>Load\<close> found a
  handler.
\<close>

lemma step_to_close:
  assumes "step c p s = Some (p', s')"
  shows "is_pc_close p' = (is_pc_Load p \<and> Load s \<noteq> None)"
proof (cases p)
  case pc_setup
  then show ?thesis
    using assms by (cases "acceptProxy_setup c s") (auto split: sum.splits)
qed (use assms in \<open>auto simp add: close_chan_def make_chan_def split: if_splits option.splits\<close>)

text \<open>
  An orphaned channel stays orphaned, and a goroutine that waits in a receive on it stays
  there, whatever the goroutines of the system do.
\<close>

lemma step_keeps_orphan:
  assumes "step c p s = Some (p', s')"
    and "d < nchans s" and "d \<notin> set (closed s)"
    and "case Load s of None \<Rightarrow> True | Some h \<Rightarrow> done_ch h \<noteq> d"
    and "\<not> holds_done d p"
  shows "d < nchans s' \<and> d \<notin> set (closed s') \<and>
         (case Load s' of None \<Rightarrow> True | Some h \<Rightarrow> done_ch h \<noteq> d) \<and>
         \<not> holds_done d p'"
proof (cases p)
  case pc_setup
  obtain res s1 where r: "acceptProxy_setup c s = (res, s1)" by (cases "acceptProxy_setup c s")
  have fr: "mw s1 = mw s \<and> nchans s1 = nchans s \<and> closed s1 = closed s"
    using setup_frame[of c s] r by simp
  show ?thesis
    using assms pc_setup r fr by (cases res) (auto simp add: Load_def)
qed (use assms in \<open>auto simp add: Load_def Store_def close_chan_def make_chan_def conn_Close_def
      new_handler_def split: if_splits option.splits\<close>)

lemma sys_step_keeps_orphan:
  assumes "orphaned d sys"
  shows "orphaned d (sys_step i sys)"
proof (cases "i < length (goroutines sys)")
  case False
  then show ?thesis using assms by (simp add: sys_step_def)
next
  case True
  let ?g = "goroutines sys ! i"
  show ?thesis
  proof (cases "step (g_call ?g) (g_pc ?g) (shared sys)")
    case None
    then show ?thesis using assms True by (simp add: sys_step_def)
  next
    case (Some x)
    obtain p' s' where x: "x = (p', s')" by (cases x)
    have st: "step (g_call ?g) (g_pc ?g) (shared sys) = Some (p', s')" using Some x by simp
    have o: "d < nchans (shared sys)" "d \<notin> set (closed (shared sys))"
      "case Load (shared sys) of None \<Rightarrow> True | Some h \<Rightarrow> done_ch h \<noteq> d"
      "list_all (\<lambda>g. \<not> holds_done d (g_pc g)) (goroutines sys)"
      using assms by (simp_all add: orphaned_def)
    have nh: "\<not> holds_done d (g_pc ?g)"
      using o(4) True by (simp add: list_all_length)
    note k = step_keeps_orphan[OF st o(1,2,3) nh]
    have sys': "sys_step i sys =
        \<lparr>shared = s', goroutines = (goroutines sys)[i := ?g\<lparr>g_pc := p'\<rparr>]\<rparr>"
      using True st by (simp add: sys_step_def Let_def)
    have la: "list_all (\<lambda>g. \<not> holds_done d (g_pc g)) ((goroutines sys)[i := ?g\<lparr>g_pc := p'\<rparr>])"
    proof -
      have "\<And>n. n < length (goroutines sys) \<Longrightarrow>
              \<not> holds_done d (g_pc ((goroutines sys)[i := ?g\<lparr>g_pc := p'\<rparr>] ! n))"
      proof -
        fix n assume n: "n < length (goroutines sys)"
        show "\<not> holds_done d (g_pc ((goroutines sys)[i := ?g\<lparr>g_pc := p'\<rparr>] ! n))"
        proof (cases "n = i")
          case True
          then show ?thesis using n k by simp
        next
          case False
          then show ?thesis using n o(4) by (simp add: list_all_length)
        qed
      qed
      then show ?thesis by (simp add: list_all_length)
    qed
    show ?thesis unfolding sys' using k la by (simp add: orphaned_def)
  qed
qed

lemma sys_step_keeps_receiver:
  assumes "j < length (goroutines sys)"
    and "g_pc (goroutines sys ! j) = pc_recv cn h2conn d"
    and "d \<notin> set (closed (shared sys))"
  shows "length (goroutines (sys_step i sys)) = length (goroutines sys) \<and>
         g_pc (goroutines (sys_step i sys) ! j) = pc_recv cn h2conn d"
proof (cases "i = j")
  case True
  then show ?thesis using assms by (simp add: sys_step_def Let_def)
next
  case False
  then show ?thesis using assms
    by (auto simp add: sys_step_def Let_def split: option.splits)
qed

lemma exec_keeps_orphan:
  assumes "orphaned d sys" and "j < length (goroutines sys)"
    and "g_pc (goroutines sys ! j) = pc_recv cn h2conn d"
  shows "orphaned d (exec sched sys) \<and> j < length (goroutines (exec sched sys)) \<and>
         g_pc (goroutines (exec sched sys) ! j) = pc_recv cn h2conn d"
  using assms
proof (induction sched arbitrary: sys)
  case Nil
  then show ?case by simp
next
  case (Cons i sched)
  have nc: "d \<notin> set (closed (shared sys))" using Cons.prems(1) by (simp add: orphaned_def)
  have o: "orphaned d (sys_step i sys)" using sys_step_keeps_orphan[OF Cons.prems(1)] .
  have r: "length (goroutines (sys_step i sys)) = length (goroutines sys)"
    "g_pc (goroutines (sys_step i sys) ! j) = pc_recv cn h2conn d"
    using sys_step_keeps_receiver[OF Cons.prems(2,3) nc] by simp_all
  have j: "j < length (goroutines (sys_step i sys))" using r(1) Cons.prems(2) by simp
  show ?case using Cons.IH[OF o j r(2)] by simp
qed

lemma exec_append: "exec (xs @ ys) sys = exec ys (exec xs sys)"
  by (induction xs arbitrary: sys) simp_all

text \<open>
  Two registrations on a new middleware, interleaved so that both execute their \<^verbatim>\<open>Load\<close>
  before either executes its \<^verbatim>\<open>Store\<close>; any further requests have not started yet.
\<close>

lemma overlap_prefix:
  "exec [0, 0, 0, 1, 1, 1, 0, 0, 1, 1] (spawn sec (registering sec 1 # registering sec 2 # others)) =
     \<lparr>shared = \<lparr>mw = \<lparr>Secret = sec, handler = Some (new_handler (ClientConn (RawConn 2)) 1)\<rparr>,
                 nchans = 2, closed = [], hijacked = [1, 2], conn_closed = [], dead = []\<rparr>,
      goroutines =
        \<lparr>g_call = registering sec 1, g_pc = pc_recv 1 (ClientConn (RawConn 1)) 0\<rparr> #
        \<lparr>g_call = registering sec 2, g_pc = pc_recv 2 (ClientConn (RawConn 2)) 1\<rparr> #
        map (\<lambda>c. \<lparr>g_call = c, g_pc = pc_ServeHTTP\<rparr>) others\<rparr>"
  by (simp add: spawn_def sys_step_def acceptProxy_setup_def registering_def
      fresh_def Load_def Store_def make_chan_def Header_Get_def)

subsection \<open>Configuration and the two kinds of request\<close>

text \<open>
  C9. \<^verbatim>\<open>Validate\<close> returns an error exactly when the configured secret is the empty
  string (which is also what a \<^verbatim>\<open>Middleware\<close> whose secret was never set holds).
\<close>

theorem Validate_rejects_exactly_empty_secret:
  "(Validate m \<noteq> None) = (Secret m = '''')"
  by (simp add: Validate_def)

text \<open>
  C10. \<^verbatim>\<open>ServeHTTP\<close> runs \<^verbatim>\<open>acceptProxy\<close> exactly when \<^verbatim>\<open>Header.Get("X-Client-Proxy")\<close>
  equals the secret. Such a request is then neither passed to the next handler nor to the
  stored handler's proxy: what \<^verbatim>\<open>ServeHTTP\<close> returns is what \<^verbatim>\<open>acceptProxy\<close> returns,
  and when a set-up operation fails that is the set-up error. With a secret that \<^verbatim>\<open>Validate\<close>
  accepts, the header equals the secret exactly when the header is present and its first
  value is the secret.
\<close>

theorem credential_decides_registration:
  "is_Accepting (fst (ServeHTTP c s)) =
     (Header_Get (Header (call_r c)) ''X-Client-Proxy'' = Secret (mw s)) \<and>
   (Validate (mw s) = None \<longrightarrow>
      (Header_Get (Header (call_r c)) ''X-Client-Proxy'' = Secret (mw s)) =
      (\<exists>vs. map_of (Header (call_r c)) ''X-Client-Proxy'' = Some (Secret (mw s) # vs))) \<and>
   (Header_Get (Header (call_r c)) ''X-Client-Proxy'' = Secret (mw s) \<longrightarrow>
      ServeHTTP c s = (Accepting (fst (acceptProxy_begin c s)), snd (acceptProxy_begin c s)) \<and>
      step c pc_ServeHTTP s = Some (pc_setup, s) \<and>
      (isl (fst (acceptProxy_setup c s)) \<longrightarrow>
         fst (ServeHTTP c s) =
           Accepting (Returned (Some (projl (fst (acceptProxy_setup c s))))) \<and>
         step c pc_setup s =
           Some (pc_done (Accepting (Returned (Some (projl (fst (acceptProxy_setup c s)))))),
                 snd (ServeHTTP c s))))"
proof -
  obtain res s1 where r: "acceptProxy_setup c s = (res, s1)" by (cases "acceptProxy_setup c s")
  have v: "Validate (mw s) = None \<longrightarrow>
      (Header_Get (Header (call_r c)) ''X-Client-Proxy'' = Secret (mw s)) =
      (\<exists>vs. map_of (Header (call_r c)) ''X-Client-Proxy'' = Some (Secret (mw s) # vs))"
    using Header_Get_eq_nonempty[of "Secret (mw s)" "Header (call_r c)" "''X-Client-Proxy''"]
    by (simp add: Validate_def split: if_splits)
  have rest: "is_Accepting (fst (ServeHTTP c s)) =
     (Header_Get (Header (call_r c)) ''X-Client-Proxy'' = Secret (mw s)) \<and>
   (Header_Get (Header (call_r c)) ''X-Client-Proxy'' = Secret (mw s) \<longrightarrow>
      ServeHTTP c s = (Accepting (fst (acceptProxy_begin c s)), snd (acceptProxy_begin c s)) \<and>
      step c pc_ServeHTTP s = Some (pc_setup, s) \<and>
      (isl (fst (acceptProxy_setup c s)) \<longrightarrow>
         fst (ServeHTTP c s) =
           Accepting (Returned (Some (projl (fst (acceptProxy_setup c s))))) \<and>
         step c pc_setup s =
           Some (pc_done (Accepting (Returned (Some (projl (fst (acceptProxy_setup c s)))))),
                 snd (ServeHTTP c s))))"
    using r by (cases res) (auto simp add: ServeHTTP_def split_beta acceptProxy_begin_def
        split: option.splits)
  show ?thesis using v rest by blast
qed

theorem credential_decides_registration_witness:
  "Validate (mw (fresh ''s3cret'')) = None \<and>
   Header_Get (Header (call_r
       ((registering ''s3cret'' 1)\<lparr>call_w := \<lparr>EnableFullDuplex = None,
            Hijack = Inl (Err ''not a Hijacker'')\<rparr>\<rparr>))) ''X-Client-Proxy'' =
     Secret (mw (fresh ''s3cret'')) \<and>
   isl (fst (acceptProxy_setup
       ((registering ''s3cret'' 1)\<lparr>call_w := \<lparr>EnableFullDuplex = None,
            Hijack = Inl (Err ''not a Hijacker'')\<rparr>\<rparr>) (fresh ''s3cret''))) \<and>
   fst (ServeHTTP
       ((registering ''s3cret'' 1)\<lparr>call_w := \<lparr>EnableFullDuplex = None,
            Hijack = Inl (Err ''not a Hijacker'')\<rparr>\<rparr>) (fresh ''s3cret'')) =
     Accepting (Returned (Some
       (Wrap ''client_proxy: must connect using HTTP/1.1'' (Err ''not a Hijacker''))))"
proof -
  let ?c = "(registering ''s3cret'' 1)\<lparr>call_w := \<lparr>EnableFullDuplex = None,
            Hijack = Inl (Err ''not a Hijacker'')\<rparr>\<rparr>"
  have m: "Header_Get (Header (call_r ?c)) ''X-Client-Proxy'' = Secret (mw (fresh ''s3cret''))"
    by (simp add: registering_def fresh_def Header_Get_def)
  have f: "isl (fst (acceptProxy_setup ?c (fresh ''s3cret'')))"
    by (simp add: acceptProxy_setup_def registering_def)
  have p: "projl (fst (acceptProxy_setup ?c (fresh ''s3cret''))) =
           Wrap ''client_proxy: must connect using HTTP/1.1'' (Err ''not a Hijacker'')"
    by (simp add: acceptProxy_setup_def registering_def)
  have "fst (ServeHTTP ?c (fresh ''s3cret'')) =
          Accepting (Returned (Some (projl (fst (acceptProxy_setup ?c (fresh ''s3cret''))))))"
    using m f credential_decides_registration[of ?c "fresh ''s3cret''"] by blast
  then show ?thesis
    using m f p by (simp add: Validate_def fresh_def)
qed

text \<open>
  C6, as the code has it. A request whose credential differs from the secret leaves the
  whole state as it was, so no connection is hijacked; it goes to the next handler when
  the slot is empty and to the stored handler's proxy when a handler is stored.
\<close>

theorem wrong_credential_never_hijacks:
  assumes "Header_Get (Header (call_r c)) ''X-Client-Proxy'' \<noteq> Secret (mw s)"
  shows "snd (ServeHTTP c s) = s \<and>
         hijacked (snd (ServeHTTP c s)) = hijacked s \<and>
         fst (ServeHTTP c s) = (case Load s of Some h \<Rightarrow> Proxied h | None \<Rightarrow> Next) \<and>
         run 2 c (pc_ServeHTTP, s) = (pc_done (fst (ServeHTTP c s)), s)"
  using assms by (simp add: ServeHTTP_def numeral_2_eq_2 split: option.splits)

theorem wrong_credential_never_hijacks_witness:
  "Header_Get (Header (call_r (ordinary 2))) ''X-Client-Proxy'' \<noteq> Secret (mw (fresh ''s3cret'')) \<and>
   ServeHTTP (ordinary 2) (fresh ''s3cret'') = (Next, fresh ''s3cret'')"
proof -
  have h: "Header_Get (Header (call_r (ordinary 2))) ''X-Client-Proxy'' \<noteq>
           Secret (mw (fresh ''s3cret''))"
    by (simp add: ordinary_def fresh_def Header_Get_def)
  have l: "Load (fresh ''s3cret'') = None" by (simp add: fresh_def Load_def)
  show ?thesis
    using h l wrong_credential_never_hijacks[OF h]
    by (cases "ServeHTTP (ordinary 2) (fresh ''s3cret'')") simp
qed

text \<open>
  After one registration, a request without the credential is handed to the stored
  handler's proxy, not to the next handler.
\<close>

theorem wrong_credential_not_next_counterexample:
  "Header_Get (Header (call_r (ordinary 2))) ''X-Client-Proxy'' \<noteq>
     Secret (mw (snd (acceptProxy_begin (registering ''s3cret'' 1) (fresh ''s3cret'')))) \<and>
   fst (ServeHTTP (ordinary 2)
          (snd (acceptProxy_begin (registering ''s3cret'' 1) (fresh ''s3cret'')))) =
     Proxied (new_handler (ClientConn (RawConn 1)) 0) \<and>
   fst (ServeHTTP (ordinary 2)
          (snd (acceptProxy_begin (registering ''s3cret'' 1) (fresh ''s3cret'')))) \<noteq> Next"
  by (simp add: ServeHTTP_def acceptProxy_begin_def acceptProxy_setup_def registering_def
      ordinary_def fresh_def Load_def Store_def make_chan_def Header_Get_def)

subsection \<open>Registration and retirement\<close>

text \<open>
  C3. When a set-up operation of \<^verbatim>\<open>acceptProxy\<close> fails (\<^verbatim>\<open>EnableFullDuplex\<close>,
  \<^verbatim>\<open>Hijack\<close>, \<^verbatim>\<open>Flush\<close> or \<^verbatim>\<open>NewClientConn\<close>), the call returns that error, and the
  middleware with its handler slot, and the channels, are what they were before; the
  goroutine finishes in the one set-up operation and never reaches the \<^verbatim>\<open>Store\<close>.
\<close>

theorem failed_setup_keeps_slot:
  assumes "isl (fst (acceptProxy_setup c s))"
  shows "fst (acceptProxy_begin c s) = Returned (Some (projl (fst (acceptProxy_setup c s)))) \<and>
         Load (snd (acceptProxy_begin c s)) = Load s \<and>
         mw (snd (acceptProxy_begin c s)) = mw s \<and>
         nchans (snd (acceptProxy_begin c s)) = nchans s \<and>
         closed (snd (acceptProxy_begin c s)) = closed s \<and>
         step c pc_setup s =
           Some (pc_done (Accepting (fst (acceptProxy_begin c s))), snd (acceptProxy_begin c s))"
proof -
  obtain res s1 where r: "acceptProxy_setup c s = (res, s1)" by (cases "acceptProxy_setup c s")
  with assms obtain err where e: "res = Inl err" by (cases res) auto
  have fr: "mw s1 = mw s \<and> nchans s1 = nchans s \<and> closed s1 = closed s"
    using setup_frame[of c s] r by simp
  show ?thesis using r e fr by (simp add: acceptProxy_begin_def Load_def)
qed

theorem failed_setup_keeps_slot_witness:
  "isl (fst (acceptProxy_setup
         ((registering ''s3cret'' 2)\<lparr>call_w := \<lparr>EnableFullDuplex = None,
            Hijack = Inr \<lparr>conn = 2, Flush = Some (Err ''broken pipe''), Buffered = []\<rparr>\<rparr>\<rparr>)
         (snd (acceptProxy_begin (registering ''s3cret'' 1) (fresh ''s3cret''))))) \<and>
   fst (acceptProxy_begin
         ((registering ''s3cret'' 2)\<lparr>call_w := \<lparr>EnableFullDuplex = None,
            Hijack = Inr \<lparr>conn = 2, Flush = Some (Err ''broken pipe''), Buffered = []\<rparr>\<rparr>\<rparr>)
         (snd (acceptProxy_begin (registering ''s3cret'' 1) (fresh ''s3cret'')))) =
     Returned (Some (Wrap ''client_proxy: unexpected flush error'' (Err ''broken pipe''))) \<and>
   Load (snd (acceptProxy_begin
         ((registering ''s3cret'' 2)\<lparr>call_w := \<lparr>EnableFullDuplex = None,
            Hijack = Inr \<lparr>conn = 2, Flush = Some (Err ''broken pipe''), Buffered = []\<rparr>\<rparr>\<rparr>)
         (snd (acceptProxy_begin (registering ''s3cret'' 1) (fresh ''s3cret''))))) =
     Some (new_handler (ClientConn (RawConn 1)) 0)"
proof -
  let ?c = "(registering ''s3cret'' 2)\<lparr>call_w := \<lparr>EnableFullDuplex = None,
            Hijack = Inr \<lparr>conn = 2, Flush = Some (Err ''broken pipe''), Buffered = []\<rparr>\<rparr>\<rparr>"
  let ?s = "snd (acceptProxy_begin (registering ''s3cret'' 1) (fresh ''s3cret''))"
  have p: "projl (fst (acceptProxy_setup ?c ?s)) =
             Wrap ''client_proxy: unexpected flush error'' (Err ''broken pipe'')"
    by (simp add: acceptProxy_setup_def registering_def)
  have h: "isl (fst (acceptProxy_setup ?c ?s))"
    by (simp add: acceptProxy_setup_def registering_def)
  have l: "Load ?s = Some (new_handler (ClientConn (RawConn 1)) 0)"
    by (simp add: acceptProxy_begin_def acceptProxy_setup_def registering_def fresh_def
        Load_def Store_def make_chan_def)
  show ?thesis using h p l failed_setup_keeps_slot[OF h] by simp
qed

text \<open>
  Registrations that do not overlap. \<open>N > 0\<close> registrations whose set-up succeeds, run one
  after the other, each up to its receive on \<^verbatim>\<open>done\<close>, from a new middleware or any other
  quiescent state: none panics or returns, each has a \<^verbatim>\<open>done\<close> channel of its own,
  \<^verbatim>\<open>Load\<close> returns the handler stored by the last one, the \<^verbatim>\<open>done\<close> channel of each of
  the \<open>N - 1\<close> earlier ones has been closed exactly once, and that of the last one has not
  been closed. The handler that was stored before the sequence, if any, has been closed
  exactly once too.
\<close>

lemma sequential_registrations_retire_predecessors:
  assumes "quiescent s" and "cs \<noteq> []" and "\<forall>c\<in>set cs. promotes c"
  shows "let ps = fst (registrations cs s); s' = snd (registrations cs s) in
     length ps = length cs \<and> list_all is_Receiving ps \<and> distinct (map r_done ps) \<and>
     Load s' = Some (new_handler (r_h2conn (last ps)) (r_done (last ps))) \<and>
     (\<forall>i < length ps - 1. count_list (closed s') (r_done (ps ! i)) = 1) \<and>
     count_list (closed s') (r_done (last ps)) = 0 \<and>
     (case Load s of None \<Rightarrow> True | Some h \<Rightarrow> count_list (closed s') (done_ch h) = 1)"
proof -
  let ?ps = "fst (registrations cs s)"
  let ?s' = "snd (registrations cs s)"
  note rr = registrations_run[OF assms(1,3)]
  have len: "length ?ps = length cs" and rcv: "list_all is_Receiving ?ps"
    and dn: "map r_done ?ps = [nchans s ..< nchans s + length cs]"
    and ld: "Load ?s' = stored (last ?ps)"
    using rr assms(2) by simp_all
  have ne: "?ps \<noteq> []" using len assms(2) by auto
  have lastr: "is_Receiving (last ?ps)"
    using rcv ne by (simp add: list_all_iff)
  have nth_done: "\<And>i. i < length cs \<Longrightarrow> r_done (?ps ! i) = nchans s + i"
    using nth_registration_done[OF assms(1,3)] by simp
  have last_done: "r_done (last ?ps) = nchans s + (length cs - 1)"
    using nth_done[of "length cs - 1"] ne len assms(2) by (simp add: last_conv_nth)
  have d: "distinct (map r_done ?ps)" using dn by simp
  have l: "Load ?s' = Some (new_handler (r_h2conn (last ?ps)) (r_done (last ?ps)))"
    using ld stored_Receiving[OF lastr] by simp
  have prior: "\<forall>i < length ?ps - 1. count_list (closed ?s') (r_done (?ps ! i)) = 1"
    using len nth_done registrations_closed_count[OF assms(1,3,2)] by simp
  have lst: "count_list (closed ?s') (r_done (last ?ps)) = 0"
    using last_done registrations_closed_count[OF assms(1,3,2), of "length cs - 1"] by simp
  have old: "case Load s of None \<Rightarrow> True | Some h \<Rightarrow> count_list (closed ?s') (done_ch h) = 1"
    using registrations_closed_old[OF assms(1,3,2)] by (simp split: option.splits)
  show ?thesis using len rcv d l prior lst old by (simp add: Let_def)
qed

text \<open>
  C1 fails on the code when registrations overlap. Three registrations on a new
  middleware, each served by its own goroutine; the first two both execute their
  \<^verbatim>\<open>Load\<close> (finding the slot empty) before either executes its \<^verbatim>\<open>Store\<close>, the third runs
  afterwards. All three succeed and wait in their receive, \<^verbatim>\<open>Load\<close> returns the handler
  of the third, the \<^verbatim>\<open>done\<close> channel of the second has been closed once, and the
  \<^verbatim>\<open>done\<close> channel of the first has not been closed at all.
\<close>

theorem overlapping_registrations_lose_signal:
  "map g_pc (goroutines (exec [0, 0, 0, 1, 1, 1, 0, 0, 1, 1, 2, 2, 2, 2, 2, 2]
      (spawn ''s3cret'' [registering ''s3cret'' 1, registering ''s3cret'' 2,
                         registering ''s3cret'' 3]))) =
     [pc_recv 1 (ClientConn (RawConn 1)) 0, pc_recv 2 (ClientConn (RawConn 2)) 1,
      pc_recv 3 (ClientConn (RawConn 3)) 2] \<and>
   Load (shared (exec [0, 0, 0, 1, 1, 1, 0, 0, 1, 1, 2, 2, 2, 2, 2, 2]
      (spawn ''s3cret'' [registering ''s3cret'' 1, registering ''s3cret'' 2,
                         registering ''s3cret'' 3]))) =
     Some (new_handler (ClientConn (RawConn 3)) 2) \<and>
   closed (shared (exec [0, 0, 0, 1, 1, 1, 0, 0, 1, 1, 2, 2, 2, 2, 2, 2]
      (spawn ''s3cret'' [registering ''s3cret'' 1, registering ''s3cret'' 2,
                         registering ''s3cret'' 3]))) = [1] \<and>
   count_list (closed (shared (exec [0, 0, 0, 1, 1, 1, 0, 0, 1, 1, 2, 2, 2, 2, 2, 2]
      (spawn ''s3cret'' [registering ''s3cret'' 1, registering ''s3cret'' 2,
                         registering ''s3cret'' 3]))))
     (done_ch (new_handler (ClientConn (RawConn 1)) 0)) = 0 \<and>
   count_list (closed (shared (exec [0, 0, 0, 1, 1, 1, 0, 0, 1, 1, 2, 2, 2, 2, 2, 2]
      (spawn ''s3cret'' [registering ''s3cret'' 1, registering ''s3cret'' 2,
                         registering ''s3cret'' 3]))))
     (done_ch (new_handler (ClientConn (RawConn 2)) 1)) = 1"
  by (simp add: spawn_def sys_step_def acceptProxy_setup_def registering_def
      fresh_def Load_def Store_def make_chan_def close_chan_def new_handler_def Header_Get_def)

text \<open>
  In any state, a call of \<^verbatim>\<open>acceptProxy\<close> that waits in the receive on its \<^verbatim>\<open>done\<close>
  channel stays blocked as long as the channel is not closed, and once it is closed the
  call returns: nil when \<^verbatim>\<open>Shutdown\<close> returned nil or an error that is
  \<^verbatim>\<open>net.ErrClosed\<close>, and otherwise the error wrapped as
  "client_proxy: error shutting down ClientConn". For registrations that do not overlap
  (set-up succeeds, run one after the other from a quiescent state), registration \<open>i\<close>
  that is displaced by a later one is blocked right after its own \<^verbatim>\<open>Store\<close>, and once the
  later registrations have run its \<^verbatim>\<open>done\<close> is closed and its call runs to that return.
\<close>

lemma waiting_call_returns_when_signalled:
  assumes "quiescent s" and "\<forall>c\<in>set cs. promotes c" and "Suc i < length cs"
  shows "(acceptProxy_end c0 cn0 d0 s0 = None) = (d0 \<notin> set (closed s0)) \<and>
         (step c0 (pc_recv cn0 h0 d0) s0 = None) = (d0 \<notin> set (closed s0)) \<and>
         map_option fst (acceptProxy_end c0 cn0 d0 s0) =
           (if d0 \<in> set (closed s0)
            then Some (case Shutdown c0 of
                         None \<Rightarrow> None
                       | Some err \<Rightarrow>
                           if errors_Is_ErrClosed err then None
                           else Some (Wrap ''client_proxy: error shutting down ClientConn'' err))
            else None) \<and>
         (let p = fst (registrations cs s) ! i;
              s_before = snd (registrations (take (Suc i) cs) s);
              s_after = snd (registrations cs s);
              ret = (case Shutdown (cs ! i) of
                       None \<Rightarrow> None
                     | Some err \<Rightarrow>
                         if errors_Is_ErrClosed err then None
                         else Some (Wrap ''client_proxy: error shutting down ClientConn'' err))
          in is_Receiving p \<and>
             acceptProxy_end (cs ! i) (r_conn p) (r_done p) s_before = None \<and>
             step (cs ! i) (pc_recv (r_conn p) (r_h2conn p) (r_done p)) s_before = None \<and>
             acceptProxy_end (cs ! i) (r_conn p) (r_done p) s_after =
               Some (ret, conn_Close (r_conn p) s_after) \<and>
             run 2 (cs ! i) (pc_recv (r_conn p) (r_h2conn p) (r_done p), s_after) =
               (pc_done (Accepting (Returned ret)), conn_Close (r_conn p) s_after))"
proof -
  let ?p = "fst (registrations cs s) ! i"
  have i: "i < length cs" and ne: "cs \<noteq> []" using assms(3) by auto
  have p: "is_Receiving ?p" "r_done ?p = nchans s + i"
    using nth_registration_done[OF assms(1,2) i] by simp_all
  have pre: "\<forall>c\<in>set (take (Suc i) cs). promotes c"
    using assms(2) by (auto dest: in_set_takeD)
  have ne': "take (Suc i) cs \<noteq> []" using ne by (cases cs) simp_all
  have "count_list (closed (snd (registrations (take (Suc i) cs) s))) (nchans s + i) = 0"
    using registrations_closed_count[OF assms(1) pre ne', of i] assms(3) by (simp add: min_def)
  then have nb: "nchans s + i \<notin> set (closed (snd (registrations (take (Suc i) cs) s)))"
    by (simp add: count_list_0_iff)
  have "count_list (closed (snd (registrations cs s))) (nchans s + i) = 1"
    using registrations_closed_count[OF assms(1,2) ne, of i] assms(3) by simp
  then have ia: "nchans s + i \<in> set (closed (snd (registrations cs s)))"
    using count_list_0_iff[of "closed (snd (registrations cs s))" "nchans s + i"] by auto
  have any: "(acceptProxy_end c0 cn0 d0 s0 = None) = (d0 \<notin> set (closed s0)) \<and>
         (step c0 (pc_recv cn0 h0 d0) s0 = None) = (d0 \<notin> set (closed s0)) \<and>
         map_option fst (acceptProxy_end c0 cn0 d0 s0) =
           (if d0 \<in> set (closed s0)
            then Some (case Shutdown c0 of
                         None \<Rightarrow> None
                       | Some err \<Rightarrow>
                           if errors_Is_ErrClosed err then None
                           else Some (Wrap ''client_proxy: error shutting down ClientConn'' err))
            else None)"
    by (simp add: acceptProxy_end_def)
  have sq: "let p = fst (registrations cs s) ! i;
              s_before = snd (registrations (take (Suc i) cs) s);
              s_after = snd (registrations cs s);
              ret = (case Shutdown (cs ! i) of
                       None \<Rightarrow> None
                     | Some err \<Rightarrow>
                         if errors_Is_ErrClosed err then None
                         else Some (Wrap ''client_proxy: error shutting down ClientConn'' err))
          in is_Receiving p \<and>
             acceptProxy_end (cs ! i) (r_conn p) (r_done p) s_before = None \<and>
             step (cs ! i) (pc_recv (r_conn p) (r_h2conn p) (r_done p)) s_before = None \<and>
             acceptProxy_end (cs ! i) (r_conn p) (r_done p) s_after =
               Some (ret, conn_Close (r_conn p) s_after) \<and>
             run 2 (cs ! i) (pc_recv (r_conn p) (r_h2conn p) (r_done p), s_after) =
               (pc_done (Accepting (Returned ret)), conn_Close (r_conn p) s_after)"
    using p nb ia by (simp add: Let_def acceptProxy_end_def numeral_2_eq_2)
  show ?thesis using any sq by blast
qed

text \<open>
  C4 fails on the code when registrations overlap. Two registrations on a new middleware
  both execute their \<^verbatim>\<open>Load\<close> before either executes its \<^verbatim>\<open>Store\<close>. The first one's
  handler is stored and then displaced by the \<^verbatim>\<open>Store\<close> of the second, which has closed
  nothing. From then on, for every further request \<open>others\<close> and every schedule \<open>sched\<close>
  of the goroutines, the first registration's \<^verbatim>\<open>done\<close> channel stays open and its call
  stays blocked in the receive: it never returns.
\<close>

theorem displaced_registration_never_returns:
  "Load (shared (exec [0, 0, 0, 1, 1, 1, 0, 0]
      (spawn sec (registering sec 1 # registering sec 2 # others)))) =
     Some (new_handler (ClientConn (RawConn 1)) 0) \<and>
   Load (shared (exec [0, 0, 0, 1, 1, 1, 0, 0, 1, 1]
      (spawn sec (registering sec 1 # registering sec 2 # others)))) =
     Some (new_handler (ClientConn (RawConn 2)) 1) \<and>
   g_pc (goroutines (exec ([0, 0, 0, 1, 1, 1, 0, 0, 1, 1] @ sched)
      (spawn sec (registering sec 1 # registering sec 2 # others))) ! 0) =
     pc_recv 1 (ClientConn (RawConn 1)) 0 \<and>
   done_ch (new_handler (ClientConn (RawConn 1)) 0) \<notin>
     set (closed (shared (exec ([0, 0, 0, 1, 1, 1, 0, 0, 1, 1] @ sched)
      (spawn sec (registering sec 1 # registering sec 2 # others))))) \<and>
   step (registering sec 1) (pc_recv 1 (ClientConn (RawConn 1)) 0)
     (shared (exec ([0, 0, 0, 1, 1, 1, 0, 0, 1, 1] @ sched)
      (spawn sec (registering sec 1 # registering sec 2 # others)))) = None"
proof -
  let ?start = "spawn sec (registering sec 1 # registering sec 2 # others)"
  let ?pre = "[0, 0, 0, 1, 1, 1, 0, 0, 1, 1 :: nat]"
  let ?mid = "exec ?pre ?start"
  have a: "Load (shared (exec [0, 0, 0, 1, 1, 1, 0, 0] ?start)) =
             Some (new_handler (ClientConn (RawConn 1)) 0)"
    by (simp add: spawn_def sys_step_def acceptProxy_setup_def registering_def
        fresh_def Load_def Store_def make_chan_def Header_Get_def)
  have b: "Load (shared ?mid) = Some (new_handler (ClientConn (RawConn 2)) 1)"
    unfolding overlap_prefix by (simp add: Load_def)
  have o: "orphaned 0 ?mid"
    unfolding overlap_prefix by (simp add: orphaned_def Load_def new_handler_def list_all_iff)
  have j: "0 < length (goroutines ?mid)" unfolding overlap_prefix by simp
  have r: "g_pc (goroutines ?mid ! 0) = pc_recv 1 (ClientConn (RawConn 1)) 0"
    unfolding overlap_prefix by simp
  note k = exec_keeps_orphan[OF o j r, of sched]
  have e: "exec (?pre @ sched) ?start = exec sched ?mid" by (rule exec_append)
  have c: "g_pc (goroutines (exec (?pre @ sched) ?start) ! 0) = pc_recv 1 (ClientConn (RawConn 1)) 0"
    unfolding e using k by simp
  have d: "0 \<notin> set (closed (shared (exec (?pre @ sched) ?start)))"
    unfolding e using k by (simp add: orphaned_def)
  have d': "done_ch (new_handler (ClientConn (RawConn 1)) 0) \<notin>
              set (closed (shared (exec (?pre @ sched) ?start)))"
    using d by (simp add: new_handler_def)
  have f: "step (registering sec 1) (pc_recv 1 (ClientConn (RawConn 1)) 0)
             (shared (exec (?pre @ sched) ?start)) = None"
    using d by simp
  show ?thesis using a b c d' f by blast
qed

text \<open>
  C2, as the code has it. The operations of a registration, each taken in whatever state
  the other goroutines have left: the \<^verbatim>\<open>Load\<close> changes nothing and, when it finds a handler
  \<open>h\<close>, is followed by the close of \<open>h\<close>'s \<^verbatim>\<open>done\<close> channel, otherwise directly by the
  \<^verbatim>\<open>make\<close>; the close appends \<open>h\<close>'s channel to the closed ones (or panics when it is
  closed already) and leaves the slot as it is, so that a request forwarded right after the
  signal goes to what the slot held before it; the \<^verbatim>\<open>make\<close> follows the close and the
  \<^verbatim>\<open>Store\<close> follows the \<^verbatim>\<open>make\<close>; the \<^verbatim>\<open>Store\<close> makes \<^verbatim>\<open>Load\<close> return the new handler
  and closes nothing. For every operation of every goroutine: it closes a channel only if
  it is such a close, it changes the slot only if it is a \<^verbatim>\<open>Store\<close>, it never does both,
  and it leads to a close exactly when it is a \<^verbatim>\<open>Load\<close> that found a handler.
\<close>

theorem retirement_signal_precedes_store:
  assumes "step c p s = Some (p', s')"
  shows "step c (pc_Load cn h2conn) sa =
           Some (case Load sa of Some h \<Rightarrow> pc_close cn h2conn h | None \<Rightarrow> pc_make cn h2conn, sa) \<and>
         step c (pc_close cn h2conn h) sb =
           Some (if done_ch h \<in> set (closed sb)
                 then (pc_done (Accepting Panicked), conn_Close cn sb)
                 else (pc_make cn h2conn, sb\<lparr>closed := closed sb @ [done_ch h]\<rparr>)) \<and>
         Load (sb\<lparr>closed := closed sb @ [done_ch h]\<rparr>) = Load sb \<and>
         step c' pc_forward (sb\<lparr>closed := closed sb @ [done_ch h]\<rparr>) =
           Some (pc_done (case Load sb of Some h' \<Rightarrow> Proxied h' | None \<Rightarrow> Next),
                 sb\<lparr>closed := closed sb @ [done_ch h]\<rparr>) \<and>
         step c (pc_make cn h2conn) sc =
           Some (pc_Store cn h2conn (nchans sc), sc\<lparr>nchans := Suc (nchans sc)\<rparr>) \<and>
         Load (sc\<lparr>nchans := Suc (nchans sc)\<rparr>) = Load sc \<and>
         closed (sc\<lparr>nchans := Suc (nchans sc)\<rparr>) = closed sc \<and>
         step c (pc_Store cn h2conn d) sd =
           Some (pc_recv cn h2conn d, Store (new_handler h2conn d) sd) \<and>
         Load (Store (new_handler h2conn d) sd) = Some (new_handler h2conn d) \<and>
         closed (Store (new_handler h2conn d) sd) = closed sd \<and>
         (closed s' = closed s \<or> is_pc_close p) \<and>
         (Load s' = Load s \<or> is_pc_Store p) \<and>
         (closed s' = closed s \<or> Load s' = Load s) \<and>
         is_pc_close p' = (is_pc_Load p \<and> Load s \<noteq> None)"
proof -
  have e1: "closed s' = closed s \<or> is_pc_close p" using step_keeps_closed[OF assms] .
  have e2: "Load s' = Load s \<or> is_pc_Store p" using step_keeps_handler[OF assms] .
  have e3: "closed s' = closed s \<or> Load s' = Load s"
    using e1 e2 by (cases p) auto
  have e4: "is_pc_close p' = (is_pc_Load p \<and> Load s \<noteq> None)"
    using step_to_close[OF assms] .
  have st: "step c (pc_Load cn h2conn) sa =
           Some (case Load sa of Some h \<Rightarrow> pc_close cn h2conn h | None \<Rightarrow> pc_make cn h2conn, sa) \<and>
         step c (pc_close cn h2conn h) sb =
           Some (if done_ch h \<in> set (closed sb)
                 then (pc_done (Accepting Panicked), conn_Close cn sb)
                 else (pc_make cn h2conn, sb\<lparr>closed := closed sb @ [done_ch h]\<rparr>)) \<and>
         Load (sb\<lparr>closed := closed sb @ [done_ch h]\<rparr>) = Load sb \<and>
         step c' pc_forward (sb\<lparr>closed := closed sb @ [done_ch h]\<rparr>) =
           Some (pc_done (case Load sb of Some h' \<Rightarrow> Proxied h' | None \<Rightarrow> Next),
                 sb\<lparr>closed := closed sb @ [done_ch h]\<rparr>) \<and>
         step c (pc_make cn h2conn) sc =
           Some (pc_Store cn h2conn (nchans sc), sc\<lparr>nchans := Suc (nchans sc)\<rparr>) \<and>
         Load (sc\<lparr>nchans := Suc (nchans sc)\<rparr>) = Load sc \<and>
         closed (sc\<lparr>nchans := Suc (nchans sc)\<rparr>) = closed sc \<and>
         step c (pc_Store cn h2conn d) sd =
           Some (pc_recv cn h2conn d, Store (new_handler h2conn d) sd) \<and>
         Load (Store (new_handler h2conn d) sd) = Some (new_handler h2conn d) \<and>
         closed (Store (new_handler h2conn d) sd) = closed sd"
    by (simp add: Load_def Store_def close_chan_def make_chan_def split: option.splits)
  show ?thesis using st e1 e2 e3 e4 by blast
qed

theorem retirement_signal_precedes_store_witness:
  "step (registering ''s3cret'' 2)
     (pc_close 2 (ClientConn (RawConn 2)) (new_handler (ClientConn (RawConn 1)) 0))
     (snd (acceptProxy_begin (registering ''s3cret'' 1) (fresh ''s3cret''))) =
     Some (pc_make 2 (ClientConn (RawConn 2)),
           (snd (acceptProxy_begin (registering ''s3cret'' 1) (fresh ''s3cret'')))\<lparr>closed := [0]\<rparr>) \<and>
   Load (snd (acceptProxy_begin (registering ''s3cret'' 1) (fresh ''s3cret''))) =
     Some (new_handler (ClientConn (RawConn 1)) 0) \<and>
   Load ((snd (acceptProxy_begin (registering ''s3cret'' 1) (fresh ''s3cret'')))\<lparr>closed := [0]\<rparr>) =
     Load (snd (acceptProxy_begin (registering ''s3cret'' 1) (fresh ''s3cret''))) \<and>
   is_pc_close (pc_close 2 (ClientConn (RawConn 2)) (new_handler (ClientConn (RawConn 1)) 0)) \<and>
   step (registering ''s3cret'' 2) (pc_Load 2 (ClientConn (RawConn 2)))
     (snd (acceptProxy_begin (registering ''s3cret'' 1) (fresh ''s3cret''))) =
     Some (pc_close 2 (ClientConn (RawConn 2)) (new_handler (ClientConn (RawConn 1)) 0),
           snd (acceptProxy_begin (registering ''s3cret'' 1) (fresh ''s3cret'')))"
proof -
  let ?s = "snd (acceptProxy_begin (registering ''s3cret'' 1) (fresh ''s3cret''))"
  let ?h = "new_handler (ClientConn (RawConn 1)) 0"
  let ?p = "pc_close 2 (ClientConn (RawConn 2)) ?h"
  have l: "Load ?s = Some ?h"
    by (simp add: acceptProxy_begin_def acceptProxy_setup_def registering_def fresh_def
        Load_def Store_def make_chan_def)
  have cl: "closed ?s = []"
    by (simp add: acceptProxy_begin_def acceptProxy_setup_def registering_def fresh_def
        Load_def Store_def make_chan_def)
  have d: "done_ch ?h = 0" by (simp add: new_handler_def)
  have hyp: "step (registering ''s3cret'' 2) ?p ?s =
               Some (pc_make 2 (ClientConn (RawConn 2)), ?s\<lparr>closed := [0]\<rparr>)"
    using cl d by (simp add: close_chan_def)
  note t = retirement_signal_precedes_store[OF hyp, where cn = 2
      and ?h2conn = "ClientConn (RawConn 2)" and ?h = ?h and ?sa = ?s and ?sb = ?s
      and ?sc = ?s and ?sd = ?s and ?c' = "ordinary 3" and ?d = 1]
  have a: "Load (?s\<lparr>closed := [0]\<rparr>) = Load ?s"
    using t cl d by simp
  have b: "is_pc_close ?p" by simp
  have c: "step (registering ''s3cret'' 2) (pc_Load 2 (ClientConn (RawConn 2))) ?s =
             Some (?p, ?s)"
    using t l by simp
  show ?thesis using hyp l a b c by simp
qed

text \<open>
  Three goroutines: two registrations and an ordinary request. The first registration runs
  up to its receive; the second runs until it has closed the first one's \<^verbatim>\<open>done\<close> and
  has not stored yet; then the ordinary request runs, and its \<^verbatim>\<open>Load\<close>, performed after
  the signal, returns the retiring handler.
\<close>

theorem retired_handler_loaded_after_signal_counterexample:
  "closed (shared (exec [0, 0, 0, 0, 0, 1, 1, 1, 1]
      (spawn ''s3cret'' [registering ''s3cret'' 1, registering ''s3cret'' 2, ordinary 3]))) =
     [done_ch (new_handler (ClientConn (RawConn 1)) 0)] \<and>
   g_pc (goroutines (exec [0, 0, 0, 0, 0, 1, 1, 1, 1]
      (spawn ''s3cret'' [registering ''s3cret'' 1, registering ''s3cret'' 2, ordinary 3])) ! 1) =
     pc_make 2 (ClientConn (RawConn 2)) \<and>
   Load (shared (exec [0, 0, 0, 0, 0, 1, 1, 1, 1]
      (spawn ''s3cret'' [registering ''s3cret'' 1, registering ''s3cret'' 2, ordinary 3]))) =
     Some (new_handler (ClientConn (RawConn 1)) 0) \<and>
   g_pc (goroutines (exec [0, 0, 0, 0, 0, 1, 1, 1, 1, 2, 2]
      (spawn ''s3cret'' [registering ''s3cret'' 1, registering ''s3cret'' 2, ordinary 3])) ! 2) =
     pc_done (Proxied (new_handler (ClientConn (RawConn 1)) 0))"
  by (simp add: spawn_def sys_step_def acceptProxy_setup_def registering_def ordinary_def
      fresh_def Load_def Store_def make_chan_def close_chan_def new_handler_def Header_Get_def)

subsection \<open>Forwarding\<close>

text \<open>
  C5, as the code has it. When the connection under the stored handler's transport has
  died, a lookup still finds that handler: \<^verbatim>\<open>ServeHTTP\<close> hands a request without the
  credential to the handler's proxy and returns nil, and does not call the next handler.
  The handler stays in the slot through every operation of every goroutine but the
  \<^verbatim>\<open>Store\<close> of a later registration.
\<close>

theorem dead_transport_still_used:
  assumes "Load s = Some h" and "transport_dead s"
    and "Header_Get (Header (call_r c)) ''X-Client-Proxy'' \<noteq> Secret (mw s)"
    and "step c' p s = Some (p', s')"
  shows "ServeHTTP c s = (Proxied h, s) \<and>
         step c pc_forward s = Some (pc_done (Proxied h), s) \<and>
         (Load s' = Some h \<or> is_pc_Store p)"
  using assms(1,3) step_keeps_handler[OF assms(4)] by (auto simp add: ServeHTTP_def)

theorem dead_transport_still_used_witness:
  "Load (conn_dies 1 (snd (acceptProxy_begin (registering ''s3cret'' 1) (fresh ''s3cret'')))) =
     Some (new_handler (ClientConn (RawConn 1)) 0) \<and>
   transport_dead (conn_dies 1 (snd (acceptProxy_begin (registering ''s3cret'' 1) (fresh ''s3cret'')))) \<and>
   Header_Get (Header (call_r (ordinary 2))) ''X-Client-Proxy'' \<noteq>
     Secret (mw (conn_dies 1 (snd (acceptProxy_begin (registering ''s3cret'' 1) (fresh ''s3cret''))))) \<and>
   step (ordinary 3) pc_ServeHTTP
     (conn_dies 1 (snd (acceptProxy_begin (registering ''s3cret'' 1) (fresh ''s3cret'')))) =
     Some (pc_forward,
       conn_dies 1 (snd (acceptProxy_begin (registering ''s3cret'' 1) (fresh ''s3cret'')))) \<and>
   ServeHTTP (ordinary 2)
     (conn_dies 1 (snd (acceptProxy_begin (registering ''s3cret'' 1) (fresh ''s3cret'')))) =
     (Proxied (new_handler (ClientConn (RawConn 1)) 0),
      conn_dies 1 (snd (acceptProxy_begin (registering ''s3cret'' 1) (fresh ''s3cret''))))"
proof -
  let ?s = "conn_dies 1 (snd (acceptProxy_begin (registering ''s3cret'' 1) (fresh ''s3cret'')))"
  let ?h = "new_handler (ClientConn (RawConn 1)) 0"
  have h1: "Load ?s = Some ?h"
    by (simp add: acceptProxy_begin_def acceptProxy_setup_def registering_def fresh_def
        Load_def Store_def make_chan_def conn_dies_def)
  have h2: "transport_dead ?s"
    by (simp add: transport_dead_def acceptProxy_begin_def acceptProxy_setup_def
        registering_def fresh_def Load_def Store_def make_chan_def conn_dies_def new_handler_def)
  have h3: "Header_Get (Header (call_r (ordinary 2))) ''X-Client-Proxy'' \<noteq> Secret (mw ?s)"
    by (simp add: acceptProxy_begin_def acceptProxy_setup_def registering_def fresh_def
        Load_def Store_def make_chan_def conn_dies_def ordinary_def Header_Get_def)
  have h4: "step (ordinary 3) pc_ServeHTTP ?s = Some (pc_forward, ?s)"
    by (simp add: acceptProxy_begin_def acceptProxy_setup_def registering_def fresh_def
        Load_def Store_def make_chan_def conn_dies_def ordinary_def Header_Get_def)
  have "ServeHTTP (ordinary 2) ?s = (Proxied ?h, ?s)"
    using dead_transport_still_used[OF h1 h2 h3 h4] by blast
  then show ?thesis using h1 h2 h3 h4 by simp
qed

text \<open>
  After one registration over connection 1, that connection dies; an ordinary request is
  then handed to the handler over connection 1, not to the next handler.
\<close>

theorem dead_transport_not_next_counterexample:
  "transport_dead (conn_dies 1 (snd (acceptProxy_begin (registering ''s3cret'' 1) (fresh ''s3cret'')))) \<and>
   Header_Get (Header (call_r (ordinary 2))) ''X-Client-Proxy'' \<noteq>
     Secret (mw (conn_dies 1 (snd (acceptProxy_begin (registering ''s3cret'' 1) (fresh ''s3cret''))))) \<and>
   fst (ServeHTTP (ordinary 2)
     (conn_dies 1 (snd (acceptProxy_begin (registering ''s3cret'' 1) (fresh ''s3cret''))))) =
     Proxied (new_handler (ClientConn (RawConn 1)) 0) \<and>
   fst (ServeHTTP (ordinary 2)
     (conn_dies 1 (snd (acceptProxy_begin (registering ''s3cret'' 1) (fresh ''s3cret''))))) \<noteq> Next"
  by (simp add: ServeHTTP_def transport_dead_def acceptProxy_begin_def acceptProxy_setup_def
      registering_def fresh_def Load_def Store_def make_chan_def conn_dies_def new_handler_def
      ordinary_def Header_Get_def)

text \<open>
  C8, as the code has it. The handler a registration stores has a director that sets
  \<^verbatim>\<open>r.URL.Scheme\<close> to "https" and changes nothing else of the request: the authority
  (\<^verbatim>\<open>r.URL.Host\<close> and \<^verbatim>\<open>r.Host\<close>) and the header stay those of the inbound request.
\<close>

theorem director_sets_scheme_only:
  assumes "fst (acceptProxy_begin c s) = Receiving cn h2conn d"
  shows "Load (snd (acceptProxy_begin c s)) = Some (new_handler h2conn d) \<and>
         Director (proxy (new_handler h2conn d)) req = req\<lparr>URL_Scheme := ''https''\<rparr> \<and>
         URL_Scheme (Director (proxy (new_handler h2conn d)) req) = ''https'' \<and>
         URL_Host (Director (proxy (new_handler h2conn d)) req) = URL_Host req \<and>
         Host (Director (proxy (new_handler h2conn d)) req) = Host req \<and>
         Header (Director (proxy (new_handler h2conn d)) req) = Header req"
proof -
  have "Load (snd (acceptProxy_begin c s)) = Some (new_handler h2conn d)"
    using assms
    by (auto simp add: acceptProxy_begin_def Load_def Store_def make_chan_def split_beta
        split: prod.splits sum.splits option.splits)
  then show ?thesis by (simp add: new_handler_def)
qed

theorem director_sets_scheme_only_witness:
  "fst (acceptProxy_begin (registering ''s3cret'' 1) (fresh ''s3cret'')) =
     Receiving 1 (ClientConn (RawConn 1)) 0 \<and>
   Director (proxy (new_handler (ClientConn (RawConn 1)) 0)) (call_r (ordinary 2)) =
     \<lparr>Header = [(''Accept'', [''text/html''])], URL_Scheme = ''https'', URL_Host = '''',
      Host = ''public.example.com''\<rparr>"
proof -
  have h: "fst (acceptProxy_begin (registering ''s3cret'' 1) (fresh ''s3cret'')) =
     Receiving 1 (ClientConn (RawConn 1)) 0"
    by (simp add: acceptProxy_begin_def acceptProxy_setup_def registering_def fresh_def
        Load_def Store_def make_chan_def)
  have "Director (proxy (new_handler (ClientConn (RawConn 1)) 0)) (call_r (ordinary 2)) =
          (call_r (ordinary 2))\<lparr>URL_Scheme := ''https''\<rparr>"
    using director_sets_scheme_only[OF h, of "call_r (ordinary 2)"] by blast
  then show ?thesis using h by (simp add: ordinary_def)
qed

text \<open>
  A request for the authority "public.example.com", rewritten by the director of a stored
  handler, still addresses "public.example.com".
\<close>

theorem director_keeps_authority_counterexample:
  "Host (call_r (ordinary 2)) = ''public.example.com'' \<and>
   Host (Director (proxy (the (Load (snd (acceptProxy_begin (registering ''s3cret'' 1)
           (fresh ''s3cret''))))))
          (call_r (ordinary 2))) = ''public.example.com'' \<and>
   URL_Host (Director (proxy (the (Load (snd (acceptProxy_begin (registering ''s3cret'' 1)
           (fresh ''s3cret''))))))
          (call_r (ordinary 2))) = URL_Host (call_r (ordinary 2))"
  by (simp add: acceptProxy_begin_def acceptProxy_setup_def registering_def fresh_def
      Load_def Store_def make_chan_def new_handler_def ordinary_def)

end
